theory Spec2Isabelle
  imports Complex_Main "HOL-Library.Word"
begin

section \<open>Arrays, cells and errors\<close>

text \<open>
  The engine of \<^verbatim>\<open>LSMC.py\<close> works on numpy arrays. An input array is modelled the way
  numpy stores it: a shape and the elements in row-major order. The inputs (time grid,
  prices, strike, rate, payoffs) are finite reals. A cell of the cashflow matrix is
  \<open>None\<close> for the NaN the matrix is filled with and \<open>Some x\<close> for a finite value. Every
  value computed from the discount factors is a double \<open>fl\<close>, defined below: finite,
  infinite or NaN. The integer cumulative sums of numpy (64-bit, wrapping) are modelled
  in \<open>int\<close>: the second cumulative sum over \<open>M\<close> rows of booleans is at most
  \<open>(M * (M + 1)) div 2\<close>, and \<open>collapse64_eq_collapse\<close> below shows that up to \<open>2 ^ 32\<close>
  dates the collapse computed in 64-bit words is the one computed in \<open>int\<close>.
\<close>

record ndarray =
  shape :: "nat list"
  elems :: "real list"

type_synonym cell = "real option"

datatype error = AssertionError | ValueError | IndexError | EstimatorError

definition ndim :: "ndarray \<Rightarrow> nat" where
  "ndim a = length (shape a)"

text \<open>\<^verbatim>\<open>len(a)\<close>: the first dimension. It is only called after \<open>ndim\<close> has been asserted.\<close>

definition len :: "ndarray \<Rightarrow> nat" where
  "len a = (case shape a of [] \<Rightarrow> 0 | n # _ \<Rightarrow> n)"

text \<open>\<^verbatim>\<open>np.shape(X)[1]\<close> of a 2-dimensional array.\<close>

definition ncols :: "ndarray \<Rightarrow> nat" where
  "ncols a = shape a ! 1"

text \<open>\<^verbatim>\<open>a[j, :]\<close> of a 2-dimensional array, and the list of all its rows.\<close>

definition row :: "ndarray \<Rightarrow> nat \<Rightarrow> real list" where
  "row a j = map (\<lambda>n. elems a ! (j * ncols a + n)) [0..<ncols a]"

definition rows :: "ndarray \<Rightarrow> real list list" where
  "rows a = map (row a) [0..<len a]"

text \<open>The product of line 60 on cells: NaN is absorbing.\<close>

definition mul_cell :: "cell \<Rightarrow> cell \<Rightarrow> cell" where
  "mul_cell a b = (case a of None \<Rightarrow> None | Some x \<Rightarrow> (case b of None \<Rightarrow> None | Some y \<Rightarrow> Some (x * y)))"

text \<open>
  Doubles. Rounding is not modelled: a finite result is the exact real. The range is
  modelled: a result beyond the largest double \<open>dbl_max\<close> is an infinity, and infinities
  and NaN follow IEEE 754 (\<open>0 * inf\<close> and \<open>inf - inf\<close> are NaN, \<open>exp (- inf) = 0\<close>).
\<close>

datatype fl = Fin real | PosInf | NegInf | NaN

definition dbl_max :: real where
  "dbl_max = (2 ^ 53 - 1) * 2 ^ 971"

definition ovf :: "real \<Rightarrow> fl" where
  "ovf x = (if dbl_max < x then PosInf else if x < - dbl_max then NegInf else Fin x)"

text \<open>An infinity times a finite value \<open>a\<close> (for \<open>+inf\<close>) or \<open>- a\<close> (for \<open>-inf\<close>).\<close>

definition inf_signed :: "real \<Rightarrow> fl" where
  "inf_signed a = (if 0 < a then PosInf else if a < 0 then NegInf else NaN)"

fun fl_mul :: "fl \<Rightarrow> fl \<Rightarrow> fl" where
  "fl_mul (Fin a) (Fin b) = ovf (a * b)"
| "fl_mul (Fin a) PosInf = inf_signed a"
| "fl_mul (Fin a) NegInf = inf_signed (- a)"
| "fl_mul PosInf (Fin b) = inf_signed b"
| "fl_mul NegInf (Fin b) = inf_signed (- b)"
| "fl_mul PosInf PosInf = PosInf"
| "fl_mul PosInf NegInf = NegInf"
| "fl_mul NegInf PosInf = NegInf"
| "fl_mul NegInf NegInf = PosInf"
| "fl_mul NaN y = NaN"
| "fl_mul x NaN = NaN"

fun fl_add :: "fl \<Rightarrow> fl \<Rightarrow> fl" where
  "fl_add (Fin a) (Fin b) = ovf (a + b)"
| "fl_add (Fin a) PosInf = PosInf"
| "fl_add (Fin a) NegInf = NegInf"
| "fl_add PosInf (Fin b) = PosInf"
| "fl_add NegInf (Fin b) = NegInf"
| "fl_add PosInf PosInf = PosInf"
| "fl_add PosInf NegInf = NaN"
| "fl_add NegInf PosInf = NaN"
| "fl_add NegInf NegInf = NegInf"
| "fl_add NaN y = NaN"
| "fl_add x NaN = NaN"

fun fl_exp :: "fl \<Rightarrow> fl" where
  "fl_exp (Fin x) = ovf (exp x)"
| "fl_exp PosInf = PosInf"
| "fl_exp NegInf = Fin 0"
| "fl_exp NaN = NaN"

text \<open>A cell as a double, and the comparison \<^verbatim>\<open>p > c\<close> of a finite \<open>p\<close> with a double.\<close>

fun fl_of_cell :: "cell \<Rightarrow> fl" where
  "fl_of_cell None = NaN"
| "fl_of_cell (Some x) = Fin x"

fun exceeds :: "real \<Rightarrow> fl \<Rightarrow> bool" where
  "exceeds p (Fin c) = (c < p)"
| "exceeds p NegInf = True"
| "exceeds p PosInf = False"
| "exceeds p NaN = False"

text \<open>
  \<^verbatim>\<open>np.mean\<close> of a 1-dimensional array: the sum, here taken in index order, divided by
  the number of entries; NaN (\<open>0 / 0\<close>) for the empty array.
\<close>

definition fl_sum :: "fl list \<Rightarrow> fl" where
  "fl_sum vs = foldl fl_add (Fin 0) vs"

fun fl_div_count :: "fl \<Rightarrow> nat \<Rightarrow> fl" where
  "fl_div_count (Fin s) n = Fin (s / real n)"
| "fl_div_count v n = v"

definition fl_mean :: "fl list \<Rightarrow> fl" where
  "fl_mean vs = (if vs = [] then NaN else fl_div_count (fl_sum vs) (length vs))"

text \<open>Boolean-mask selection \<^verbatim>\<open>a[mask]\<close> and assignment \<^verbatim>\<open>a[mask] = vs\<close>.\<close>

definition masked :: "bool list \<Rightarrow> 'a list \<Rightarrow> 'a list" where
  "masked m xs = map snd (filter fst (zip m xs))"

fun put_mask :: "bool list \<Rightarrow> 'a list \<Rightarrow> 'a list \<Rightarrow> 'a list" where
  "put_mask (True # ms) (x # xs) (v # vs) = v # put_mask ms xs vs"
| "put_mask (False # ms) (x # xs) vs = x # put_mask ms xs vs"
| "put_mask ms xs vs = xs"

text \<open>
  Broadcasting a 1-dimensional array against \<open>k\<close> selected entries: equal lengths, or a
  single value repeated; every other combination makes the comparison or the masked
  assignment of its result raise.
\<close>

definition broadcast_to :: "nat \<Rightarrow> 'a list \<Rightarrow> error + 'a list" where
  "broadcast_to k ev =
     (if length ev = k then Inr ev
      else if length ev = 1 then Inr (replicate k (hd ev))
      else Inl ValueError)"

text \<open>\<^verbatim>\<open>np.cumsum(a, axis=0)\<close> on a matrix with \<open>N\<close> columns, and \<^verbatim>\<open>np.cumprod\<close> on a vector.\<close>

primrec cum_rows :: "int list \<Rightarrow> int list list \<Rightarrow> int list list" where
  "cum_rows acc [] = []"
| "cum_rows acc (r # rs) = map2 (+) acc r # cum_rows (map2 (+) acc r) rs"

definition cumsum_axis0 :: "nat \<Rightarrow> int list list \<Rightarrow> int list list" where
  "cumsum_axis0 N a = cum_rows (replicate N 0) a"

primrec cum_prod :: "fl \<Rightarrow> fl list \<Rightarrow> fl list" where
  "cum_prod acc [] = []"
| "cum_prod acc (x # xs) = fl_mul acc x # cum_prod (fl_mul acc x) xs"

fun cumprod :: "fl list \<Rightarrow> fl list" where
  "cumprod [] = []"
| "cumprod (x # xs) = x # cum_prod x xs"

section \<open>The backward induction engine\<close>

record lsmc_state =
  stopping_rule :: "bool list list"
  cashflow :: "cell list list"

record lsmc_result =
  tentative :: lsmc_state
  final_stopping_rule :: "bool list list"
  final_cashflow :: "cell list list"
  price :: fl

text \<open>Lines 36 to 40: the two matrices and the terminal date.\<close>

definition init_state :: "nat \<Rightarrow> nat \<Rightarrow> real list list \<Rightarrow> lsmc_state" where
  "init_state M N payoff =
     \<lparr>stopping_rule = (replicate M (replicate N False))[M - 1 := map (\<lambda>p. p > 0) (payoff ! M)],
      cashflow = (replicate M (replicate N None))[M - 1 := map Some (payoff ! M)]\<rparr>"

text \<open>
  Lines 46 and 50: the estimator on the in-the-money subset of date \<open>j\<close>. The extra
  arguments \<^verbatim>\<open>*args, **kwargs\<close> are part of the two functions. Either may raise.
\<close>

definition continuation ::
  "(real list \<Rightarrow> fl list \<Rightarrow> error + 'm) \<Rightarrow> (real list \<Rightarrow> 'm \<Rightarrow> error + fl list) \<Rightarrow>
   real list list \<Rightarrow> real list list \<Rightarrow> fl list \<Rightarrow> nat \<Rightarrow> lsmc_state \<Rightarrow> error + fl list" where
  "continuation fit_func pred_func X payoff discount_factor j s =
     (let itm = map (\<lambda>p. p > 0) (payoff ! j) in
      case fit_func (masked itm (X ! j))
             (map (\<lambda>c. fl_mul (fl_of_cell c) (discount_factor ! j)) (masked itm (cashflow s ! j))) of
        Inl e \<Rightarrow> Inl e
      | Inr fit \<Rightarrow> pred_func (masked itm (X ! j)) fit)"

text \<open>Lines 43 to 56: one pass of the loop body, at date \<open>j\<close>.\<close>

definition step ::
  "(real list \<Rightarrow> fl list \<Rightarrow> error + 'm) \<Rightarrow> (real list \<Rightarrow> 'm \<Rightarrow> error + fl list) \<Rightarrow>
   real list list \<Rightarrow> real list list \<Rightarrow> fl list \<Rightarrow> nat \<Rightarrow> lsmc_state \<Rightarrow> error + lsmc_state" where
  "step fit_func pred_func X payoff discount_factor j s =
     (let itm = map (\<lambda>p. p > 0) (payoff ! j) in
      case continuation fit_func pred_func X payoff discount_factor j s of
        Inl e \<Rightarrow> Inl e
      | Inr EV_cont \<Rightarrow>
          (let exercise = masked itm (payoff ! j) in
           case broadcast_to (length exercise) EV_cont of
             Inl e \<Rightarrow> Inl e
           | Inr ev \<Rightarrow>
               (let sr = (stopping_rule s)
                           [j - 1 := put_mask itm (stopping_rule s ! (j - 1))
                                       (map2 exceeds exercise ev)];
                    cf = (cashflow s)
                           [j - 1 := map2 (\<lambda>b p. Some (of_bool b * p)) (sr ! (j - 1)) (payoff ! j)]
                in Inr \<lparr>stopping_rule = sr, cashflow = cf\<rparr>)))"

text \<open>
  \<^verbatim>\<open>for j in range(start, stop, -1)\<close>: the dates \<open>start, start - 1, ..., stop + 1\<close>.
  The engine runs it from \<open>M - 1\<close> down to \<open>0\<close>.
\<close>

fun backward ::
  "(real list \<Rightarrow> fl list \<Rightarrow> error + 'm) \<Rightarrow> (real list \<Rightarrow> 'm \<Rightarrow> error + fl list) \<Rightarrow>
   real list list \<Rightarrow> real list list \<Rightarrow> fl list \<Rightarrow> nat \<Rightarrow> nat \<Rightarrow> lsmc_state \<Rightarrow> error + lsmc_state" where
  "backward fit_func pred_func X payoff discount_factor stop 0 s = Inr s"
| "backward fit_func pred_func X payoff discount_factor stop (Suc j) s =
     (if Suc j \<le> stop then Inr s
      else case step fit_func pred_func X payoff discount_factor (Suc j) s of
             Inl e \<Rightarrow> Inl e
           | Inr s' \<Rightarrow> backward fit_func pred_func X payoff discount_factor stop j s')"

text \<open>Line 59: the double cumulative sum, kept where it equals 1.\<close>

definition collapse :: "nat \<Rightarrow> bool list list \<Rightarrow> bool list list" where
  "collapse N sr = map (map (\<lambda>v. v = 1)) (cumsum_axis0 N (cumsum_axis0 N (map (map of_bool) sr)))"

text \<open>The same collapse with the sums in 64-bit words, as numpy accumulates them.\<close>

primrec cum_rows64 :: "64 word list \<Rightarrow> 64 word list list \<Rightarrow> 64 word list list" where
  "cum_rows64 acc [] = []"
| "cum_rows64 acc (r # rs) = map2 (+) acc r # cum_rows64 (map2 (+) acc r) rs"

definition collapse64 :: "nat \<Rightarrow> bool list list \<Rightarrow> bool list list" where
  "collapse64 N sr =
     map (map (\<lambda>v. v = 1))
       (cum_rows64 (replicate N 0) (cum_rows64 (replicate N 0) (map (map of_bool) sr)))"

text \<open>Line 60: \<^verbatim>\<open>stopping_rule * cashflow\<close>.\<close>

definition mask_cashflow :: "bool list list \<Rightarrow> cell list list \<Rightarrow> cell list list" where
  "mask_cashflow sr cf = map2 (map2 (\<lambda>b c. mul_cell (Some (of_bool b)) c)) sr cf"

text \<open>Line 63: \<^verbatim>\<open>cashflow.T @ np.cumprod(discount_factor)\<close>, one value per path, and its mean.\<close>

definition pathwise :: "nat \<Rightarrow> cell list list \<Rightarrow> fl list \<Rightarrow> fl list" where
  "pathwise N cf discount_factor =
     map (\<lambda>n. fl_sum (map2 (\<lambda>r c. fl_mul (fl_of_cell (r ! n)) c) cf (cumprod discount_factor)))
       [0..<N]"

definition finish :: "nat \<Rightarrow> fl list \<Rightarrow> lsmc_state \<Rightarrow> lsmc_result" where
  "finish N discount_factor s =
     (let sr = collapse N (stopping_rule s);
          cf = mask_cashflow sr (cashflow s)
      in \<lparr>tentative = s, final_stopping_rule = sr, final_cashflow = cf,
          price = fl_mean (pathwise N cf discount_factor)\<rparr>)"

text \<open>
  Lines 29 and 32, \<^verbatim>\<open>np.exp(-r * np.diff(t))\<close>, for a time grid of \<open>M + 1\<close> points: the
  difference, the product and the exponential are each a double operation.
\<close>

definition discount_factors :: "real \<Rightarrow> ndarray \<Rightarrow> nat \<Rightarrow> fl list" where
  "discount_factors r t M =
     map (\<lambda>j. fl_exp (fl_mul (Fin (- r)) (ovf (elems t ! (j + 1) - elems t ! j)))) [0..<M]"

text \<open>
  The whole function with everything it computes. The payoff collaborator is a
  parameter; the spec gives it the contract of returning a matrix of the shape of \<open>X\<close>.
  The model covers every 2-dimensional payoff with the \<open>N\<close> columns of \<open>X\<close>: with fewer
  than \<open>M + 1\<close> rows \<^verbatim>\<open>payoff[M, :]\<close> is out of range, and rows beyond \<open>M\<close> are never read.
  A payoff of another dimension or width is outside that contract and is reported as an
  error (numpy raises there, or broadcasts a single column). With an empty time grid
  \<^verbatim>\<open>np.full((-1, N), ...)\<close> raises; with a single time point \<^verbatim>\<open>cashflow[-1, :]\<close> is out
  of range on a matrix without rows.
\<close>

definition lsmc_run ::
  "ndarray \<Rightarrow> ndarray \<Rightarrow> real \<Rightarrow> real \<Rightarrow> (ndarray \<Rightarrow> real \<Rightarrow> string \<Rightarrow> error + ndarray) \<Rightarrow> string \<Rightarrow>
   (real list \<Rightarrow> fl list \<Rightarrow> error + 'm) \<Rightarrow> (real list \<Rightarrow> 'm \<Rightarrow> error + fl list) \<Rightarrow>
   error + lsmc_result" where
  "lsmc_run t X K r payoff_func ty fit_func pred_func =
     (if ndim t \<noteq> 1 then Inl AssertionError
      else if ndim X \<noteq> 2 then Inl AssertionError
      else if len X \<noteq> len t then Inl AssertionError
      else
        (let M = len t - 1; N = ncols X; discount_factor = discount_factors r t M in
         case payoff_func X K ty of
           Inl e \<Rightarrow> Inl e
         | Inr payoff \<Rightarrow>
             if len t = 0 then Inl ValueError
             else if ndim payoff \<noteq> 2 \<or> ncols payoff \<noteq> N then Inl ValueError
             else if len payoff \<le> M then Inl IndexError
             else if M = 0 then Inl IndexError
             else
               (case backward fit_func pred_func (rows X) (rows payoff) discount_factor 0 (M - 1)
                       (init_state M N (rows payoff)) of
                  Inl e \<Rightarrow> Inl e
                | Inr s \<Rightarrow> Inr (finish N discount_factor s))))"

text \<open>What the function returns: the price alone (line 65).\<close>

definition lsmc ::
  "ndarray \<Rightarrow> ndarray \<Rightarrow> real \<Rightarrow> real \<Rightarrow> (ndarray \<Rightarrow> real \<Rightarrow> string \<Rightarrow> error + ndarray) \<Rightarrow> string \<Rightarrow>
   (real list \<Rightarrow> fl list \<Rightarrow> error + 'm) \<Rightarrow> (real list \<Rightarrow> 'm \<Rightarrow> error + fl list) \<Rightarrow>
   error + fl" where
  "lsmc t X K r payoff_func ty fit_func pred_func =
     (case lsmc_run t X K r payoff_func ty fit_func pred_func of
        Inl e \<Rightarrow> Inl e
      | Inr res \<Rightarrow> Inr (price res))"

section \<open>The explicit scan of the design notes\<close>

text \<open>
  The design notes ask for the collapse to be rewritten as "find first true index per
  path, discard later trues". This is that scan, written from those words: the first
  index at which a column is true, and the matrix that is true exactly there.
\<close>

fun first_true :: "bool list \<Rightarrow> nat option" where
  "first_true [] = None"
| "first_true (b # bs) = (if b then Some 0 else map_option Suc (first_true bs))"

definition column :: "nat \<Rightarrow> 'a list list \<Rightarrow> 'a list" where
  "column n a = map (\<lambda>r. r ! n) a"

definition keep_first_true :: "nat \<Rightarrow> bool list list \<Rightarrow> bool list list" where
  "keep_first_true N a = map (\<lambda>i. map (\<lambda>n. first_true (column n a) = Some i) [0..<N]) [0..<length a]"


section \<open>Invariants of the backward sweep\<close>

text \<open>
  \<open>shaped\<close>: both matrices have \<open>M\<close> rows of \<open>N\<close> entries. \<open>settled\<close>: a rule entry is
  true only where the payoff of its date is positive, and every cashflow row from
  \<open>j\<close> on has been written.
\<close>

definition shaped :: "nat \<Rightarrow> nat \<Rightarrow> lsmc_state \<Rightarrow> bool" where
  "shaped M N s \<longleftrightarrow>
     length (stopping_rule s) = M \<and> length (cashflow s) = M \<and>
     (\<forall>i<M. length (stopping_rule s ! i) = N \<and> length (cashflow s ! i) = N)"

definition settled :: "nat \<Rightarrow> nat \<Rightarrow> real list list \<Rightarrow> nat \<Rightarrow> lsmc_state \<Rightarrow> bool" where
  "settled M N payoff j s \<longleftrightarrow>
     (\<forall>i<M. \<forall>n<N. stopping_rule s ! i ! n \<longrightarrow> payoff ! (i + 1) ! n > 0) \<and>
     (\<forall>i<M. \<forall>n<N. j \<le> i \<longrightarrow>
        cashflow s ! i ! n =
          Some (if i = M - 1 then payoff ! M ! n
                else of_bool (stopping_rule s ! i ! n) * payoff ! (i + 1) ! n))"


section \<open>A worked example\<close>

text \<open>
  Three dates, three paths, a put struck at 40, and an estimator that predicts the same
  continuation value for every path. Path 0 is exercised early, path 1 is never in the
  money, path 2 ties with the prediction at date 1 and is exercised at maturity.
\<close>

definition grid3 :: ndarray where
  "grid3 = \<lparr>shape = [3], elems = [0, 1, 2]\<rparr>"

definition paths3 :: ndarray where
  "paths3 = \<lparr>shape = [3, 3], elems = [40, 40, 40, 36, 44, 37, 30, 45, 34]\<rparr>"

definition payoff3 :: ndarray where
  "payoff3 = \<lparr>shape = [3, 3], elems = [0, 0, 0, 4, 0, 3, 10, 0, 6]\<rparr>"

text \<open>
  Modelled from the spec: \<^verbatim>\<open>european_payoff\<close> of \<^verbatim>\<open>application/options/payoff.py\<close> is
  not among the sources. The spec has the payoff evaluator return a matrix of the shape
  of the price matrix with entries that are 0 when out of the money, and values a put
  struck at 40 at 10, 0 and 2 on the prices 30, 45 and 38. Only the put is needed here,
  as one possible argument for the \<open>payoff_func\<close> parameter.
\<close>

definition put_payoff :: "ndarray \<Rightarrow> real \<Rightarrow> string \<Rightarrow> error + ndarray" where
  "put_payoff X K ty = Inr \<lparr>shape = shape X, elems = map (\<lambda>x. max (K - x) 0) (elems X)\<rparr>"

definition fit_unit :: "real list \<Rightarrow> fl list \<Rightarrow> error + unit" where
  "fit_unit xs ys = Inr ()"

definition pred_const :: "real \<Rightarrow> real list \<Rightarrow> unit \<Rightarrow> error + fl list" where
  "pred_const c xs fit = Inr (map (\<lambda>x. Fin c) xs)"

definition result3 :: "real \<Rightarrow> lsmc_result" where
  "result3 r =
     \<lparr>tentative = \<lparr>stopping_rule = [[True, False, False], [True, False, True]],
                    cashflow = [[Some 4, Some 0, Some 0], [Some 10, Some 0, Some 6]]\<rparr>,
      final_stopping_rule = [[True, False, False], [False, False, True]],
      final_cashflow = [[Some 4, Some 0, Some 0], [Some 0, Some 0, Some 6]],
      price = Fin ((4 * exp (- r) + 6 * (exp (- r) * exp (- r))) / 3)\<rparr>"

text \<open>
  The scenario of the spec with a terminal date only, an estimator and a payoff function
  that always raise, two price matrices with the same price, a price matrix without
  paths, and one whose paths are never in the money.
\<close>

definition grid2 :: ndarray where
  "grid2 = \<lparr>shape = [2], elems = [0, 1]\<rparr>"

definition paths2 :: ndarray where
  "paths2 = \<lparr>shape = [2, 3], elems = [40, 40, 40, 30, 45, 38]\<rparr>"

definition fit_fails :: "real list \<Rightarrow> fl list \<Rightarrow> error + unit" where
  "fit_fails xs ys = Inl EstimatorError"

definition pred_fails :: "real list \<Rightarrow> unit \<Rightarrow> error + fl list" where
  "pred_fails xs fit = Inl EstimatorError"



definition no_paths :: ndarray where
  "no_paths = \<lparr>shape = [2, 0], elems = []\<rparr>"

definition paths_otm :: ndarray where
  "paths_otm = \<lparr>shape = [3, 2], elems = [50, 50, 51, 52, 53, 54]\<rparr>"

definition payoff_fails :: "ndarray \<Rightarrow> real \<Rightarrow> string \<Rightarrow> error + ndarray" where
  "payoff_fails X K ty = Inl ValueError"


definition paths2_otm :: ndarray where
  "paths2_otm = \<lparr>shape = [2, 2], elems = [50, 50, 51, 52]\<rparr>"

definition pred_single :: "real \<Rightarrow> real list \<Rightarrow> unit \<Rightarrow> error + fl list" where
  "pred_single c xs fit = Inr [Fin c]"

text \<open>
  The conditions under which the discounting stays in the range of doubles: every time
  step, every product \<open>r * dt\<close>, every discount factor and every cumulative discount
  factor \<open>exp (- r * (t (k + 1) - t 0))\<close> is at most \<open>dbl_max\<close> in absolute value.
\<close>

definition in_range :: "real \<Rightarrow> bool" where
  "in_range x \<longleftrightarrow> \<bar>x\<bar> \<le> dbl_max"

definition discounts_in_range :: "real \<Rightarrow> ndarray \<Rightarrow> bool" where
  "discounts_in_range r t \<longleftrightarrow>
     (\<forall>k<len t - 1.
        in_range (elems t ! (k + 1) - elems t ! k) \<and>
        in_range (r * (elems t ! (k + 1) - elems t ! k)) \<and>
        exp (- r * (elems t ! (k + 1) - elems t ! k)) \<le> dbl_max \<and>
        exp (- r * (elems t ! (k + 1) - elems t ! 0)) \<le> dbl_max)"

section \<open>Cumulative sums and the collapse\<close>

lemma cum_rows_length [simp]: "length (cum_rows acc rs) = length rs"
  by (induction rs arbitrary: acc) auto

lemma cum_rows_nth:
  "\<forall>r\<in>set rs. length r = length acc \<Longrightarrow> i < length rs \<Longrightarrow>
   length (cum_rows acc rs ! i) = length acc \<and>
   (\<forall>n<length acc. cum_rows acc rs ! i ! n = acc ! n + (\<Sum>k\<le>i. rs ! k ! n))"
proof (induction rs arbitrary: acc i)
  case Nil
  then show ?case by simp
next
  case (Cons r rs)
  have lr: "length r = length acc" using Cons.prems by simp
  show ?case
  proof (cases i)
    case 0
    then show ?thesis using lr by simp
  next
    case (Suc i')
    have a: "\<forall>r'\<in>set rs. length r' = length (map2 (+) acc r)" using Cons.prems lr by simp
    have b: "i' < length rs" using Cons.prems Suc by simp
    from Cons.IH[OF a b] lr Suc show ?thesis
      by (simp add: sum.atMost_Suc_shift del: sum.atMost_Suc)
  qed
qed

lemma cumsum_axis0_length [simp]: "length (cumsum_axis0 N a) = length a"
  by (simp add: cumsum_axis0_def)

lemma cumsum_axis0_nth:
  assumes "\<forall>r\<in>set a. length r = N" "i < length a"
  shows "length (cumsum_axis0 N a ! i) = N"
    and "n < N \<Longrightarrow> cumsum_axis0 N a ! i ! n = (\<Sum>k\<le>i. a ! k ! n)"
  using cum_rows_nth[of a "replicate N 0" i] assms by (auto simp: cumsum_axis0_def)

lemma cumsum_axis0_rect:
  assumes "\<forall>r\<in>set a. length r = N"
  shows "\<forall>r\<in>set (cumsum_axis0 N a). length r = N"
  using cumsum_axis0_nth(1)[OF assms] by (auto simp: in_set_conv_nth)

lemma double_cumsum_one:
  fixes f :: "nat \<Rightarrow> bool"
  defines "c1 \<equiv> \<lambda>i. (\<Sum>k\<le>i. (of_bool (f k) :: int))"
  shows "(\<Sum>k\<le>i. c1 k) = 1 \<longleftrightarrow> f i \<and> (\<forall>k<i. \<not> f k)"
proof -
  have c1_0: "c1 m = 0 \<longleftrightarrow> (\<forall>k\<le>m. \<not> f k)" for m
    unfolding c1_def by (subst sum_nonneg_eq_0_iff) auto
  have c1_nonneg: "0 \<le> c1 m" for m unfolding c1_def by (rule sum_nonneg) simp
  have c1_Suc: "c1 (Suc m) = c1 m + of_bool (f (Suc m))" for m unfolding c1_def by simp
  have c2_ge: "c1 m \<le> (\<Sum>k\<le>m. c1 k)" for m
    by (rule member_le_sum) (auto simp: c1_nonneg)
  have c2_0: "(\<forall>k\<le>m. \<not> f k) \<Longrightarrow> (\<Sum>k\<le>m. c1 k) = 0" for m
  proof -
    assume h: "\<forall>k\<le>m. \<not> f k"
    have "c1 k = 0" if "k \<le> m" for k using h that c1_0[of k] by auto
    then show ?thesis by simp
  qed
  show ?thesis
  proof (cases i)
    case 0
    then show ?thesis by (cases "f 0") (simp_all add: c1_def)
  next
    case (Suc m)
    have eq: "(\<Sum>k\<le>i. c1 k) = (\<Sum>k\<le>m. c1 k) + c1 m + of_bool (f (Suc m))"
      using Suc c1_Suc by simp
    show ?thesis
    proof (cases "\<forall>k\<le>m. \<not> f k")
      case True
      then have "(\<Sum>k\<le>m. c1 k) = 0" "c1 m = 0" using c2_0 c1_0 by auto
      with eq True Suc show ?thesis by (auto simp: less_Suc_eq_le)
    next
      case False
      then have "c1 m \<noteq> 0" using c1_0 by blast
      then have "1 \<le> c1 m" using c1_nonneg[of m] by linarith
      then have "2 \<le> (\<Sum>k\<le>i. c1 k)" using eq c2_ge[of m] by (simp split: if_splits)
      with False Suc show ?thesis by (auto simp: less_Suc_eq_le)
    qed
  qed
qed

lemma first_true_Some:
  "first_true bs = Some i \<longleftrightarrow> i < length bs \<and> bs ! i \<and> (\<forall>k<i. \<not> bs ! k)"
proof (induction bs arbitrary: i)
  case Nil
  then show ?case by simp
next
  case (Cons b bs)
  show ?case
  proof (cases b)
    case True
    then show ?thesis by (cases i) auto
  next
    case False
    show ?thesis
    proof (cases i)
      case 0
      then show ?thesis using False by auto
    next
      case (Suc i')
      have "(\<forall>k<Suc i'. \<not> (b # bs) ! k) \<longleftrightarrow> (\<forall>k<i'. \<not> bs ! k)"
        using False by (auto simp: less_Suc_eq_0_disj)
      then show ?thesis using False Suc Cons.IH[of i'] by auto
    qed
  qed
qed

lemma collapse_length [simp]: "length (collapse N a) = length a"
  by (simp add: collapse_def)

lemma double_cumsum_nth:
  assumes rect: "\<forall>r\<in>set a. length r = N" and i: "i < length a" and n: "n < N"
  shows "cumsum_axis0 N (cumsum_axis0 N (map (map of_bool) a)) ! i ! n =
           (\<Sum>k\<le>i. \<Sum>l\<le>k. of_bool (a ! l ! n))"
proof -
  let ?b = "map (map of_bool) a :: int list list"
  have rb: "\<forall>r\<in>set ?b. length r = N" using rect by simp
  have rc: "\<forall>r\<in>set (cumsum_axis0 N ?b). length r = N" by (rule cumsum_axis0_rect[OF rb])
  have ib: "i < length (cumsum_axis0 N ?b)" using i by simp
  have inner: "cumsum_axis0 N ?b ! k ! n = (\<Sum>l\<le>k. of_bool (a ! l ! n))" if "k \<le> i" for k
  proof -
    have k: "k < length ?b" using that i by simp
    have "cumsum_axis0 N ?b ! k ! n = (\<Sum>l\<le>k. ?b ! l ! n)"
      by (rule cumsum_axis0_nth(2)[OF rb k n])
    also have "\<dots> = (\<Sum>l\<le>k. of_bool (a ! l ! n))"
    proof (rule sum.cong[OF refl])
      fix l assume "l \<in> {..k}"
      then have l: "l < length a" using that i by simp
      then have "length (a ! l) = N" using rect by simp
      then show "?b ! l ! n = of_bool (a ! l ! n)" using l n by simp
    qed
    finally show ?thesis .
  qed
  have "cumsum_axis0 N (cumsum_axis0 N ?b) ! i ! n = (\<Sum>k\<le>i. cumsum_axis0 N ?b ! k ! n)"
    by (rule cumsum_axis0_nth(2)[OF rc ib n])
  also have "\<dots> = (\<Sum>k\<le>i. (\<Sum>l\<le>k. of_bool (a ! l ! n)))"
    by (rule sum.cong[OF refl]) (simp add: inner)
  finally show ?thesis .
qed


lemma collapse_nth:
  assumes rect: "\<forall>r\<in>set a. length r = N" and i: "i < length a"
  shows "length (collapse N a ! i) = N"
    and "n < N \<Longrightarrow> collapse N a ! i ! n \<longleftrightarrow> a ! i ! n \<and> (\<forall>k<i. \<not> a ! k ! n)"
proof -
  let ?b = "map (map of_bool) a :: int list list"
  have rb: "\<forall>r\<in>set ?b. length r = N" using rect by simp
  have rc: "\<forall>r\<in>set (cumsum_axis0 N ?b). length r = N" by (rule cumsum_axis0_rect[OF rb])
  have ib: "i < length (cumsum_axis0 N ?b)" using i by simp
  show len: "length (collapse N a ! i) = N"
    using cumsum_axis0_nth(1)[OF rc ib] i by (simp add: collapse_def)
  assume n: "n < N"
  have "collapse N a ! i ! n \<longleftrightarrow> cumsum_axis0 N (cumsum_axis0 N ?b) ! i ! n = 1"
    using i n cumsum_axis0_nth(1)[OF rc ib] by (simp add: collapse_def)
  then show "collapse N a ! i ! n \<longleftrightarrow> a ! i ! n \<and> (\<forall>k<i. \<not> a ! k ! n)"
    unfolding double_cumsum_nth[OF rect i n] using double_cumsum_one[of "\<lambda>l. a ! l ! n" i] by simp
qed

section \<open>The collapse in 64-bit words\<close>

lemma triangle_sum: "2 * (\<Sum>k\<le>i. int k + 1) = (int i + 1) * (int i + 2)"
  by (induction i) (simp_all add: algebra_simps)

lemma double_cumsum_range:
  fixes f :: "nat \<Rightarrow> bool"
  shows "0 \<le> (\<Sum>k\<le>i. \<Sum>l\<le>k. (of_bool (f l) :: int))"
    and "2 * (\<Sum>k\<le>i. \<Sum>l\<le>k. (of_bool (f l) :: int)) \<le> (int i + 1) * (int i + 2)"
proof -
  show "0 \<le> (\<Sum>k\<le>i. \<Sum>l\<le>k. (of_bool (f l) :: int))"
    by (intro sum_nonneg) simp
  have "(\<Sum>l\<le>k. (of_bool (f l) :: int)) \<le> int k + 1" for k
  proof -
    have "(\<Sum>l\<le>k. (of_bool (f l) :: int)) \<le> (\<Sum>l\<le>k. 1)"
      by (rule sum_mono) simp
    then show ?thesis by simp
  qed
  then have "(\<Sum>k\<le>i. \<Sum>l\<le>k. (of_bool (f l) :: int)) \<le> (\<Sum>k\<le>i. int k + 1)"
    by (intro sum_mono)
  then show "2 * (\<Sum>k\<le>i. \<Sum>l\<le>k. (of_bool (f l) :: int)) \<le> (int i + 1) * (int i + 2)"
    using triangle_sum[of i] by linarith
qed

lemma double_cumsum_fits_64_bits:
  assumes rect: "\<forall>r\<in>set a. length r = N" and i: "i < length a" and n: "n < N"
    and small: "length a \<le> 2 ^ 32"
  shows "(word_of_int (cumsum_axis0 N (cumsum_axis0 N (map (map of_bool) a)) ! i ! n) = (1 :: 64 word))
           \<longleftrightarrow> cumsum_axis0 N (cumsum_axis0 N (map (map of_bool) a)) ! i ! n = 1"
proof -
  let ?v = "cumsum_axis0 N (cumsum_axis0 N (map (map of_bool) a)) ! i ! n"
  have v: "?v = (\<Sum>k\<le>i. \<Sum>l\<le>k. of_bool (a ! l ! n))"
    by (rule double_cumsum_nth[OF rect i n])
  have lo: "0 \<le> ?v" unfolding v by (rule double_cumsum_range(1))
  have "int i + 1 \<le> 2 ^ 32" using i small by simp
  moreover have "int i + 2 \<le> 2 ^ 32 + 1" using i small by simp
  ultimately have "(int i + 1) * (int i + 2) \<le> 2 ^ 32 * (2 ^ 32 + 1)"
    by (intro mult_mono) simp_all
  moreover have "2 * ?v \<le> (int i + 1) * (int i + 2)"
    unfolding v by (rule double_cumsum_range(2))
  ultimately have hi: "?v < 2 ^ 64" by simp
  have "take_bit 64 ?v = ?v" using lo hi by (simp add: take_bit_int_eq_self)
  moreover have "(word_of_int ?v = (1 :: 64 word)) \<longleftrightarrow> take_bit 64 ?v = take_bit 64 1"
    using word_of_int_eq_iff[of ?v 1, where 'a = 64] by simp
  ultimately show ?thesis by simp
qed

lemma map2_add_word_of_int:
  "map2 (+) (map word_of_int xs) (map word_of_int ys) =
     (map word_of_int (map2 (+) xs ys) :: 64 word list)"
proof (induction xs arbitrary: ys)
  case Nil
  then show ?case by simp
next
  case (Cons x xs)
  then show ?case by (cases ys) simp_all
qed

lemma cum_rows64_word_of_int:
  "cum_rows64 (map word_of_int acc) (map (map word_of_int) rs) =
     map (map word_of_int) (cum_rows acc rs)"
proof (induction rs arbitrary: acc)
  case Nil
  then show ?case by simp
next
  case (Cons r rs)
  have "cum_rows64 (map word_of_int acc) (map (map word_of_int) (r # rs)) =
          map2 (+) (map word_of_int acc) (map word_of_int r) #
          cum_rows64 (map2 (+) (map word_of_int acc) (map word_of_int r)) (map (map word_of_int) rs)"
    by simp
  also have "\<dots> = map word_of_int (map2 (+) acc r) #
          cum_rows64 (map word_of_int (map2 (+) acc r)) (map (map word_of_int) rs)"
    by (simp only: map2_add_word_of_int)
  also have "\<dots> = map (map word_of_int) (cum_rows acc (r # rs))"
    by (simp only: Cons.IH) simp
  finally show ?case .
qed

lemma cumsum64_word_of_int:
  "cum_rows64 (replicate N 0) (map (map word_of_int) rs) =
     map (map word_of_int) (cumsum_axis0 N rs)"
  using cum_rows64_word_of_int[of "replicate N 0" rs] by (simp add: cumsum_axis0_def)

lemma collapse64_eq_collapse:
  assumes rect: "\<forall>r\<in>set a. length r = N" and small: "length a \<le> 2 ^ 32"
  shows "collapse64 N a = collapse N a"
proof -
  let ?c2 = "cumsum_axis0 N (cumsum_axis0 N (map (map of_bool) a))"
  have b: "(map (map of_bool) a :: 64 word list list) = map (map word_of_int) (map (map of_bool) a)"
    by simp
  have w: "collapse64 N a = map (map (\<lambda>v. (word_of_int v :: 64 word) = 1)) ?c2"
    unfolding collapse64_def b cumsum64_word_of_int by (simp add: comp_def)
  have rb: "\<forall>r\<in>set (map (map of_bool) a :: int list list). length r = N" using rect by simp
  have rc: "\<forall>r\<in>set (cumsum_axis0 N (map (map of_bool) a)). length r = N"
    by (rule cumsum_axis0_rect[OF rb])
  show ?thesis
    unfolding w collapse_def
  proof (rule nth_equalityI)
    show "length (map (map (\<lambda>v. (word_of_int v :: 64 word) = 1)) ?c2) =
          length (map (map (\<lambda>v. v = 1)) ?c2)" by simp
  next
    fix i assume "i < length (map (map (\<lambda>v. (word_of_int v :: 64 word) = 1)) ?c2)"
    then have i: "i < length a" by simp
    then have i2: "i < length (cumsum_axis0 N (map (map of_bool) a))" by simp
    have ln: "length (?c2 ! i) = N" by (rule cumsum_axis0_nth(1)[OF rc i2])
    have "map (\<lambda>v. (word_of_int v :: 64 word) = 1) (?c2 ! i) = map (\<lambda>v. v = 1) (?c2 ! i)"
    proof (rule nth_equalityI)
      show "length (map (\<lambda>v. (word_of_int v :: 64 word) = 1) (?c2 ! i)) =
            length (map (\<lambda>v. v = 1) (?c2 ! i))" by simp
    next
      fix n assume "n < length (map (\<lambda>v. (word_of_int v :: 64 word) = 1) (?c2 ! i))"
      then have n: "n < N" using ln by simp
      show "map (\<lambda>v. (word_of_int v :: 64 word) = 1) (?c2 ! i) ! n = map (\<lambda>v. v = 1) (?c2 ! i) ! n"
        using double_cumsum_fits_64_bits[OF rect i n small] n ln by simp
    qed
    then show "map (map (\<lambda>v. (word_of_int v :: 64 word) = 1)) ?c2 ! i =
               map (map (\<lambda>v. v = 1)) ?c2 ! i"
      using i by simp
  qed
qed

section \<open>Masks\<close>

lemma put_mask_length [simp]: "length (put_mask m xs vs) = length xs"
  by (induction m xs vs rule: put_mask.induct) auto

lemma masked_Nil [simp]: "masked [] xs = []" "masked m [] = []"
  by (simp_all add: masked_def)

lemma masked_Cons [simp]:
  "masked (b # m) (x # xs) = (if b then x # masked m xs else masked m xs)"
  by (simp add: masked_def)

lemma masked_length: "length m = length xs \<Longrightarrow> length (masked m xs) = length (filter id m)"
proof (induction m arbitrary: xs)
  case Nil
  then show ?case by simp
next
  case (Cons b m)
  then show ?case by (cases xs) auto
qed

lemma put_mask_off:
  "length m = length xs \<Longrightarrow> n < length xs \<Longrightarrow> \<not> m ! n \<Longrightarrow> put_mask m xs vs ! n = xs ! n"
proof (induction m xs vs arbitrary: n rule: put_mask.induct)
  case (1 ms x xs v vs)
  then show ?case by (cases n) auto
next
  case (2 ms x xs vs)
  then show ?case by (cases n) auto
qed auto

lemma masked_put_mask:
  "length m = length xs \<Longrightarrow> length vs = length (filter id m) \<Longrightarrow> masked m (put_mask m xs vs) = vs"
  by (induction m xs vs rule: put_mask.induct) auto

section \<open>One pass of the loop\<close>

lemma init_shaped: "0 < M \<Longrightarrow> length (payoff ! M) = N \<Longrightarrow> shaped M N (init_state M N payoff)"
  by (auto simp: shaped_def init_state_def nth_list_update)

lemma init_settled:
  "0 < M \<Longrightarrow> length (payoff ! M) = N \<Longrightarrow> settled M N payoff (M - 1) (init_state M N payoff)"
  by (auto simp: settled_def init_state_def nth_list_update)

lemma step_InrD:
  assumes "step fit_func pred_func X payoff discount_factor j s = Inr s'"
  obtains EV_cont ev where
    "continuation fit_func pred_func X payoff discount_factor j s = Inr EV_cont"
    "broadcast_to (length (masked (map (\<lambda>p. p > 0) (payoff ! j)) (payoff ! j))) EV_cont = Inr ev"
    "stopping_rule s' = (stopping_rule s)
        [j - 1 := put_mask (map (\<lambda>p. p > 0) (payoff ! j)) (stopping_rule s ! (j - 1))
                   (map2 exceeds (masked (map (\<lambda>p. p > 0) (payoff ! j)) (payoff ! j)) ev)]"
    "cashflow s' = (cashflow s)
        [j - 1 := map2 (\<lambda>b p. Some (of_bool b * p)) (stopping_rule s' ! (j - 1)) (payoff ! j)]"
  using assms unfolding step_def Let_def
  by (auto split: sum.splits)

lemma broadcast_to_length: "broadcast_to k ev = Inr ev' \<Longrightarrow> length ev' = k"
  by (auto simp: broadcast_to_def split: if_splits)

lemma step_frame:
  assumes "step fit_func pred_func X payoff discount_factor j s = Inr s'" "i \<noteq> j - 1"
  shows "stopping_rule s' ! i = stopping_rule s ! i" "cashflow s' ! i = cashflow s ! i"
  using assms by (auto elim!: step_InrD)

lemma step_shaped:
  assumes st: "step fit_func pred_func X payoff discount_factor j s = Inr s'"
    and sh: "shaped M N s" and j: "0 < j" "j < M" and pl: "length (payoff ! j) = N"
  shows "shaped M N s'"
proof -
  from st obtain EV_cont ev where
    sr: "stopping_rule s' = (stopping_rule s)
        [j - 1 := put_mask (map (\<lambda>p. p > 0) (payoff ! j)) (stopping_rule s ! (j - 1))
                   (map2 exceeds (masked (map (\<lambda>p. p > 0) (payoff ! j)) (payoff ! j)) ev)]"
    and cf: "cashflow s' = (cashflow s)
        [j - 1 := map2 (\<lambda>b p. Some (of_bool b * p)) (stopping_rule s' ! (j - 1)) (payoff ! j)]"
    by (rule step_InrD)
  have l: "length (stopping_rule s) = M" "length (cashflow s) = M" using sh by (auto simp: shaped_def)
  have r: "length (stopping_rule s ! i) = N" "length (cashflow s ! i) = N" if "i < M" for i
    using sh that by (auto simp: shaped_def)
  have "length (stopping_rule s') = M" "length (cashflow s') = M" using sr cf l by simp_all
  moreover have "length (stopping_rule s' ! i) = N" if "i < M" for i
    using sr l r[OF that] that by (cases "i = j - 1") (simp_all)
  moreover have "length (cashflow s' ! i) = N" if "i < M" for i
  proof (cases "i = j - 1")
    case True
    have "length (stopping_rule s' ! (j - 1)) = N" using \<open>i < M \<Longrightarrow> length (stopping_rule s' ! i) = N\<close> that True by simp
    then show ?thesis using cf l True that pl by simp
  next
    case False
    then show ?thesis using cf l r[OF that] by simp
  qed
  ultimately show ?thesis by (simp add: shaped_def)
qed

lemma step_settled:
  assumes st: "step fit_func pred_func X payoff discount_factor j s = Inr s'"
    and sh: "shaped M N s" and se: "settled M N payoff j s"
    and j: "0 < j" "j < M" and pl: "length (payoff ! j) = N"
  shows "settled M N payoff (j - 1) s'"
proof -
  let ?itm = "map (\<lambda>p. p > 0) (payoff ! j)"
  from st obtain EV_cont ev where
    sr: "stopping_rule s' = (stopping_rule s)
        [j - 1 := put_mask ?itm (stopping_rule s ! (j - 1))
                   (map2 exceeds (masked ?itm (payoff ! j)) ev)]"
    and cf: "cashflow s' = (cashflow s)
        [j - 1 := map2 (\<lambda>b p. Some (of_bool b * p)) (stopping_rule s' ! (j - 1)) (payoff ! j)]"
    by (rule step_InrD)
  have sh': "shaped M N s'" by (rule step_shaped[OF st sh j pl])
  have l: "length (stopping_rule s) = M" "length (cashflow s) = M" using sh by (auto simp: shaped_def)
  have r: "length (stopping_rule s ! i) = N" if "i < M" for i
    using sh that by (auto simp: shaped_def)
  have r': "length (stopping_rule s' ! i) = N" if "i < M" for i
    using sh' that by (auto simp: shaped_def)
  have old: "stopping_rule s ! i ! n \<longrightarrow> payoff ! (i + 1) ! n > 0" if "i < M" "n < N" for i n
    using se that by (auto simp: settled_def)
  have jm: "j - 1 < M" "Suc (j - 1) = j" using j by simp_all
  have a: "stopping_rule s' ! i ! n \<longrightarrow> payoff ! (i + 1) ! n > 0" if "i < M" "n < N" for i n
  proof (cases "i = j - 1")
    case False
    then show ?thesis using old[OF that] sr l by simp
  next
    case True
    show ?thesis
    proof (cases "payoff ! j ! n > 0")
      case True
      then show ?thesis using \<open>i = j - 1\<close> jm by simp
    next
      case False
      then have "\<not> ?itm ! n" using pl that by simp
      then have "stopping_rule s' ! (j - 1) ! n = stopping_rule s ! (j - 1) ! n"
        using sr l jm r[OF jm(1)] pl that by (simp add: put_mask_off)
      then show ?thesis using old[OF jm(1) that(2)] \<open>i = j - 1\<close> jm by simp
    qed
  qed
  have b: "cashflow s' ! i ! n =
          Some (if i = M - 1 then payoff ! M ! n
                else of_bool (stopping_rule s' ! i ! n) * payoff ! (i + 1) ! n)"
    if "i < M" "n < N" "j - 1 \<le> i" for i n
  proof (cases "i = j - 1")
    case False
    then have "j \<le> i" using that by simp
    then have "cashflow s ! i ! n =
          Some (if i = M - 1 then payoff ! M ! n
                else of_bool (stopping_rule s ! i ! n) * payoff ! (i + 1) ! n)"
      using se that by (auto simp: settled_def)
    then show ?thesis using False sr cf l by simp
  next
    case True
    have "cashflow s' ! (j - 1) ! n = Some (of_bool (stopping_rule s' ! (j - 1) ! n) * payoff ! j ! n)"
      using cf l jm r'[OF jm(1)] pl that by simp
    moreover have "i \<noteq> M - 1" "i + 1 = j" using True j by linarith+
    ultimately show ?thesis using True by simp
  qed
  show ?thesis unfolding settled_def using a b by blast
qed

section \<open>The sweep keeps the invariants\<close>

lemma backward_inv:
  assumes "backward fit_func pred_func X payoff discount_factor stop j s = Inr s'"
    and "shaped M N s" and "settled M N payoff j s" and "j < M"
    and "\<forall>k\<le>j. length (payoff ! k) = N"
  shows "shaped M N s' \<and> settled M N payoff (min stop j) s'"
  using assms
proof (induction j arbitrary: s)
  case 0
  then show ?case by simp
next
  case (Suc j)
  show ?case
  proof (cases "Suc j \<le> stop")
    case True
    then show ?thesis using Suc.prems by (simp add: min_def)
  next
    case False
    then obtain s1 where
      s1: "step fit_func pred_func X payoff discount_factor (Suc j) s = Inr s1"
      and rest: "backward fit_func pred_func X payoff discount_factor stop j s1 = Inr s'"
      using Suc.prems(1) by (auto split: sum.splits)
    have pl: "length (payoff ! Suc j) = N" using Suc.prems(5) by simp
    have sh1: "shaped M N s1"
      by (rule step_shaped[OF s1 Suc.prems(2) _ Suc.prems(4) pl]) simp
    have se1: "settled M N payoff j s1"
      using step_settled[OF s1 Suc.prems(2) Suc.prems(3) _ Suc.prems(4) pl] by simp
    have "shaped M N s' \<and> settled M N payoff (min stop j) s'"
      using Suc.IH[OF rest sh1 se1] Suc.prems(4,5) by simp
    moreover have "min stop j = min stop (Suc j)" using False by simp
    ultimately show ?thesis by simp
  qed
qed

lemma backward_frame:
  assumes "backward fit_func pred_func X payoff discount_factor stop j s = Inr s'" and "j \<le> i"
  shows "stopping_rule s' ! i = stopping_rule s ! i \<and> cashflow s' ! i = cashflow s ! i"
  using assms
proof (induction j arbitrary: s)
  case 0
  then show ?case by simp
next
  case (Suc j)
  show ?case
  proof (cases "Suc j \<le> stop")
    case True
    then show ?thesis using Suc.prems by simp
  next
    case False
    then obtain s1 where
      s1: "step fit_func pred_func X payoff discount_factor (Suc j) s = Inr s1"
      and rest: "backward fit_func pred_func X payoff discount_factor stop j s1 = Inr s'"
      using Suc.prems(1) by (auto split: sum.splits)
    have "i \<noteq> Suc j - 1" using Suc.prems(2) by simp
    from step_frame[OF s1 this] Suc.IH[OF rest] Suc.prems(2) show ?thesis by simp
  qed
qed

lemma backward_split:
  assumes "backward fit_func pred_func X payoff discount_factor stop j s = Inr s'"
    and "stop \<le> mid"
  shows "\<exists>s1. backward fit_func pred_func X payoff discount_factor mid j s = Inr s1 \<and>
              backward fit_func pred_func X payoff discount_factor stop (min mid j) s1 = Inr s'"
  using assms
proof (induction j arbitrary: s)
  case 0
  then show ?case by simp
next
  case (Suc j)
  show ?case
  proof (cases "Suc j \<le> mid")
    case True
    then show ?thesis using Suc.prems by (simp add: min_def)
  next
    case False
    then have ns: "\<not> Suc j \<le> stop" using Suc.prems(2) by simp
    then obtain s1 where
      s1: "step fit_func pred_func X payoff discount_factor (Suc j) s = Inr s1"
      and rest: "backward fit_func pred_func X payoff discount_factor stop j s1 = Inr s'"
      using Suc.prems(1) by (auto split: sum.splits)
    from Suc.IH[OF rest Suc.prems(2)] obtain s2 where
      "backward fit_func pred_func X payoff discount_factor mid j s1 = Inr s2"
      "backward fit_func pred_func X payoff discount_factor stop (min mid j) s2 = Inr s'"
      by blast
    moreover have "min mid j = min mid (Suc j)" using False by simp
    ultimately show ?thesis using s1 False by simp
  qed
qed

lemma rows_length [simp]: "length (rows a) = len a"
  by (simp add: rows_def)

lemma rows_nth_length: "j < len a \<Longrightarrow> length (rows a ! j) = ncols a"
  by (simp add: rows_def row_def)

lemma same_shape: "shape a = shape b \<Longrightarrow> len a = len b \<and> ncols a = ncols b"
  by (simp add: len_def ncols_def)

lemma lsmc_run_InrD:
  assumes "lsmc_run t X K r payoff_func ty fit_func pred_func = Inr res"
  obtains payoff s where
    "payoff_func X K ty = Inr payoff" "ncols payoff = ncols X" "len t \<le> len payoff"
    "ndim t = 1" "ndim X = 2" "len X = len t" "2 \<le> len t"
    "backward fit_func pred_func (rows X) (rows payoff) (discount_factors r t (len t - 1)) 0
       (len t - 1 - 1) (init_state (len t - 1) (ncols X) (rows payoff)) = Inr s"
    "res = finish (ncols X) (discount_factors r t (len t - 1)) s"
  using assms unfolding lsmc_run_def Let_def
  by (auto split: if_splits sum.splits)

lemma lsmc_run_final:
  assumes run: "lsmc_run t X K r payoff_func ty fit_func pred_func = Inr res"
    and pay: "payoff_func X K ty = Inr payoff"
  shows "shaped (len t - 1) (ncols X) (tentative res)"
    and "settled (len t - 1) (ncols X) (rows payoff) 0 (tentative res)"
    and "stopping_rule (tentative res) ! (len t - 1 - 1) = map (\<lambda>p. p > 0) (rows payoff ! (len t - 1))"
    and "final_stopping_rule res = collapse (ncols X) (stopping_rule (tentative res))"
    and "final_cashflow res = mask_cashflow (final_stopping_rule res) (cashflow (tentative res))"
    and "2 \<le> len t" and "len t \<le> len payoff" and "ncols payoff = ncols X"
proof -
  let ?M = "len t - 1" and ?N = "ncols X"
  from run pay obtain s where
    lp: "len t \<le> len payoff" "ncols payoff = ?N" and lx: "len X = len t" and lt: "2 \<le> len t"
    and bw: "backward fit_func pred_func (rows X) (rows payoff) (discount_factors r t ?M) 0
       (?M - 1) (init_state ?M ?N (rows payoff)) = Inr s"
    and res: "res = finish ?N (discount_factors r t ?M) s"
    by (auto elim!: lsmc_run_InrD)
  have pl: "length (rows payoff ! k) = ?N" if "k \<le> ?M" for k
    using rows_nth_length[of k payoff] lp lt that by simp
  have M: "0 < ?M" "?M - 1 < ?M" using lt by simp_all
  have i1: "shaped ?M ?N (init_state ?M ?N (rows payoff))"
    by (rule init_shaped[OF M(1) pl]) simp
  have i2: "settled ?M ?N (rows payoff) (?M - 1) (init_state ?M ?N (rows payoff))"
    by (rule init_settled[OF M(1) pl]) simp
  have "shaped ?M ?N s \<and> settled ?M ?N (rows payoff) (min 0 (?M - 1)) s"
    by (rule backward_inv[OF bw i1 i2 M(2)]) (simp add: pl)
  then show "shaped ?M ?N (tentative res)" "settled ?M ?N (rows payoff) 0 (tentative res)"
    using res by (simp_all add: finish_def Let_def)
  have "stopping_rule s ! (?M - 1) = stopping_rule (init_state ?M ?N (rows payoff)) ! (?M - 1)"
    using backward_frame[OF bw, of "?M - 1"] by simp
  then show "stopping_rule (tentative res) ! (?M - 1) = map (\<lambda>p. p > 0) (rows payoff ! ?M)"
    using res M by (simp add: finish_def Let_def init_state_def)
  show "final_stopping_rule res = collapse ?N (stopping_rule (tentative res))"
    "final_cashflow res = mask_cashflow (final_stopping_rule res) (cashflow (tentative res))"
    using res by (simp_all add: finish_def Let_def)
  show "2 \<le> len t" "len t \<le> len payoff" "ncols payoff = ?N" using lt lp by simp_all
qed

section \<open>The final matrices\<close>

lemma shaped_rect: "shaped M N s \<Longrightarrow> \<forall>r\<in>set (stopping_rule s). length r = N"
  by (auto simp: shaped_def in_set_conv_nth)

lemma at_most_one_true:
  "(\<forall>i<length bs. \<forall>k<length bs. bs ! i \<longrightarrow> bs ! k \<longrightarrow> i = k) \<Longrightarrow> length (filter id bs) \<le> 1"
proof (induction bs)
  case Nil
  then show ?case by simp
next
  case (Cons b bs)
  have step: "\<forall>i<length bs. \<forall>k<length bs. bs ! i \<longrightarrow> bs ! k \<longrightarrow> i = k"
  proof (intro allI impI)
    fix i k assume "i < length bs" "k < length bs" "bs ! i" "bs ! k"
    then have "Suc i = Suc k" using Cons.prems[rule_format, of "Suc i" "Suc k"] by simp
    then show "i = k" by simp
  qed
  show ?case
  proof (cases b)
    case False
    then show ?thesis using Cons.IH[OF step] by simp
  next
    case True
    have "\<not> bs ! k" if "k < length bs" for k
      using Cons.prems[rule_format, of 0 "Suc k"] True that by auto
    then have "filter id bs = []" by (auto simp: filter_empty_conv in_set_conv_nth)
    then show ?thesis using True by (simp add: id_def)
  qed
qed

lemma final_rule_nth:
  assumes run: "lsmc_run t X K r payoff_func ty fit_func pred_func = Inr res"
    and i: "i < len t - 1" and n: "n < ncols X"
  shows "length (final_stopping_rule res) = len t - 1"
    and "length (final_stopping_rule res ! i) = ncols X"
    and "final_stopping_rule res ! i ! n \<longleftrightarrow>
          stopping_rule (tentative res) ! i ! n \<and> (\<forall>k<i. \<not> stopping_rule (tentative res) ! k ! n)"
proof -
  from run obtain payoff where pay: "payoff_func X K ty = Inr payoff"
    by (auto elim!: lsmc_run_InrD)
  note f = lsmc_run_final[OF run pay]
  have rect: "\<forall>r\<in>set (stopping_rule (tentative res)). length r = ncols X"
    by (rule shaped_rect[OF f(1)])
  have l: "length (stopping_rule (tentative res)) = len t - 1" using f(1) by (simp add: shaped_def)
  show "length (final_stopping_rule res) = len t - 1" using f(4) l by simp
  have i': "i < length (stopping_rule (tentative res))" using i l by simp
  show "length (final_stopping_rule res ! i) = ncols X"
    using collapse_nth(1)[OF rect i'] f(4) by simp
  show "final_stopping_rule res ! i ! n \<longleftrightarrow>
          stopping_rule (tentative res) ! i ! n \<and> (\<forall>k<i. \<not> stopping_rule (tentative res) ! k ! n)"
    using collapse_nth(2)[OF rect i' n] f(4) by simp
qed


section \<open>The final cashflow\<close>

lemma cum_prod_length [simp]: "length (cum_prod a xs) = length xs"
  by (induction xs arbitrary: a) auto

lemma cumprod_length [simp]: "length (cumprod xs) = length xs"
  by (cases xs) simp_all

lemma discount_factors_length [simp]: "length (discount_factors r t M) = M"
  by (simp add: discount_factors_def)

lemma final_cashflow_nth:
  assumes run: "lsmc_run t X K r payoff_func ty fit_func pred_func = Inr res"
    and pay: "payoff_func X K ty = Inr payoff"
    and i: "i < len t - 1" and n: "n < ncols X"
  shows "length (final_cashflow res) = len t - 1"
    and "length (final_cashflow res ! i) = ncols X"
    and "cashflow (tentative res) ! i ! n \<noteq> None"
    and "final_cashflow res ! i ! n =
           Some (if final_stopping_rule res ! i ! n then rows payoff ! (i + 1) ! n else 0)"
proof -
  note f = lsmc_run_final[OF run pay]
  let ?M = "len t - 1"
  let ?sr = "stopping_rule (tentative res)" and ?cf = "cashflow (tentative res)"
  let ?fsr = "final_stopping_rule res"
  have lc: "length ?cf = ?M" "length (?cf ! i) = ncols X" using f(1) i by (simp_all add: shaped_def)
  have lf: "length ?fsr = ?M" "length (?fsr ! i) = ncols X"
    using final_rule_nth(1,2)[OF run i n] by simp_all
  have c: "?cf ! i ! n = Some (if i = ?M - 1 then rows payoff ! ?M ! n
                else of_bool (?sr ! i ! n) * rows payoff ! (i + 1) ! n)"
    using f(2) i n by (simp add: settled_def)
  have imp: "?fsr ! i ! n \<Longrightarrow> ?sr ! i ! n" using final_rule_nth(3)[OF run i n] by simp
  have fc: "final_cashflow res ! i ! n = mul_cell (Some (of_bool (?fsr ! i ! n))) (?cf ! i ! n)"
    using f(5) lc lf i n by (simp add: mask_cashflow_def)
  have last: "i = ?M - 1 \<Longrightarrow> i + 1 = ?M" using i by simp
  show "final_cashflow res ! i ! n = Some (if ?fsr ! i ! n then rows payoff ! (i + 1) ! n else 0)"
    unfolding fc c using imp last by (auto simp: mul_cell_def)
  show "length (final_cashflow res) = ?M" "length (final_cashflow res ! i) = ncols X"
    using f(5) lc lf i by (simp_all add: mask_cashflow_def)
  show "?cf ! i ! n \<noteq> None" using c by simp
qed

lemma final_cashflow_length:
  assumes run: "lsmc_run t X K r payoff_func ty fit_func pred_func = Inr res"
  shows "length (final_cashflow res) = len t - 1"
proof -
  from run obtain payoff where pay: "payoff_func X K ty = Inr payoff"
    by (auto elim!: lsmc_run_InrD)
  note f = lsmc_run_final[OF run pay]
  have "length (cashflow (tentative res)) = len t - 1" using f(1) by (simp add: shaped_def)
  moreover have "length (final_stopping_rule res) = len t - 1"
    using f(1,4) by (simp add: shaped_def)
  ultimately show ?thesis using f(5) by (simp add: mask_cashflow_def)
qed

section \<open>Runs without in-the-money paths\<close>

lemma masked_none: "\<forall>b\<in>set m. \<not> b \<Longrightarrow> masked m xs = []"
proof (induction m arbitrary: xs)
  case Nil
  then show ?case by simp
next
  case (Cons b m)
  then show ?case by (cases xs) auto
qed

lemma step_all_otm:
  assumes z: "\<forall>p\<in>set (payoff ! j). \<not> p > 0"
    and f: "fit_func [] [] = Inr m" and p: "pred_func [] m = Inr ev" and l: "length ev \<le> 1"
  shows "\<exists>s'. step fit_func pred_func X payoff discount_factor j s = Inr s'"
proof -
  have e: "masked (map (\<lambda>p. p > 0) (payoff ! j)) xs = []" for xs :: "'b list"
    by (rule masked_none) (use z in auto)
  have c: "continuation fit_func pred_func X payoff discount_factor j s = Inr ev"
    unfolding continuation_def Let_def e using f p by simp
  have "\<exists>ev'. broadcast_to 0 ev = Inr ev'"
    using l by (cases ev) (auto simp: broadcast_to_def)
  then show ?thesis
    unfolding step_def Let_def e c by auto
qed

lemma backward_all_otm:
  assumes z: "\<forall>k\<le>j. \<forall>p\<in>set (payoff ! k). \<not> p > 0"
    and f: "fit_func [] [] = Inr m" and p: "pred_func [] m = Inr ev" and l: "length ev \<le> 1"
  shows "\<exists>s'. backward fit_func pred_func X payoff discount_factor stop j s = Inr s'"
  using z
proof (induction j arbitrary: s)
  case 0
  then show ?case by simp
next
  case (Suc j)
  have "\<forall>p\<in>set (payoff ! Suc j). \<not> p > 0" using Suc.prems by blast
  from step_all_otm[where payoff = payoff and j = "Suc j" and fit_func = fit_func
      and pred_func = pred_func, OF this f p l] obtain s1 where
    s1: "step fit_func pred_func X payoff discount_factor (Suc j) s = Inr s1" by blast
  have "\<exists>s'. backward fit_func pred_func X payoff discount_factor stop j s1 = Inr s'"
    by (rule Suc.IH) (use Suc.prems le_Suc_eq in blast)
  then show ?case using s1 by auto
qed

lemma lsmc_run_all_otm:
  assumes asserts: "ndim t = 1" "ndim X = 2" "len X = len t" and lt: "2 \<le> len t"
    and pay: "payoff_func X K ty = Inr payoff"
    and shp: "ndim payoff = 2" "ncols payoff = ncols X" "len t \<le> len payoff"
    and f: "fit_func [] [] = Inr m" and p: "pred_func [] m = Inr ev" and l: "length ev \<le> 1"
    and z: "\<forall>j<len t. \<forall>n<ncols X. rows payoff ! j ! n = 0"
  shows "\<exists>res. lsmc_run t X K r payoff_func ty fit_func pred_func = Inr res"
proof -
  have lp: "len t \<le> len payoff" "ncols payoff = ncols X" using shp by simp_all
  have zz: "\<forall>k\<le>len t - 1 - 1. \<forall>p\<in>set (rows payoff ! k). \<not> p > 0"
  proof (intro allI impI ballI)
    fix k p assume k: "k \<le> len t - 1 - 1" and "p \<in> set (rows payoff ! k)"
    have kl: "k < len t" using k lt by simp
    then have "length (rows payoff ! k) = ncols X" using rows_nth_length[of k payoff] lp by simp
    then obtain n where "n < ncols X" "p = rows payoff ! k ! n"
      using \<open>p \<in> set (rows payoff ! k)\<close> by (auto simp: in_set_conv_nth)
    then show "\<not> p > 0" using z kl by simp
  qed
  from backward_all_otm[where payoff = "rows payoff" and j = "len t - 1 - 1"
      and fit_func = fit_func and pred_func = pred_func, OF zz f p l] obtain s where
    "backward fit_func pred_func (rows X) (rows payoff) (discount_factors r t (len t - 1)) 0
       (len t - 1 - 1) (init_state (len t - 1) (ncols X) (rows payoff)) = Inr s"
    by blast
  then show ?thesis
    unfolding lsmc_run_def Let_def using asserts lt pay shp by simp
qed

lemma zero_path:
  assumes run: "lsmc_run t X K r payoff_func ty fit_func pred_func = Inr res"
    and pay: "payoff_func X K ty = Inr payoff"
    and n: "n < ncols X"
    and z: "\<forall>j<len t. rows payoff ! j ! n = 0"
    and i: "i < len t - 1"
  shows "\<not> final_stopping_rule res ! i ! n" and "final_cashflow res ! i ! n = Some 0"
proof -
  note f = lsmc_run_final[OF run pay]
  have "i + 1 < len t" using i by simp
  then have "rows payoff ! (i + 1) ! n = 0" using z by blast
  moreover have "stopping_rule (tentative res) ! i ! n \<longrightarrow> rows payoff ! (i + 1) ! n > 0"
    using f(2) i n unfolding settled_def by blast
  ultimately have "\<not> stopping_rule (tentative res) ! i ! n" by auto
  then show a: "\<not> final_stopping_rule res ! i ! n"
    using final_rule_nth(3)[OF run i n] by simp
  show "final_cashflow res ! i ! n = Some 0"
    using final_cashflow_nth(4)[OF run pay i n] a by simp
qed

section \<open>Doubles within their range\<close>

lemma dbl_max_ge: "2 ^ 1000 \<le> dbl_max"
  by (simp add: dbl_max_def)

lemma dbl_max_pos: "0 < dbl_max"
  using dbl_max_ge by (smt (verit) zero_less_power)

lemma ovf_Fin: "\<bar>x\<bar> \<le> dbl_max \<Longrightarrow> ovf x = Fin x"
  by (auto simp: ovf_def)

lemma ovf_nonneg: "0 \<le> x \<Longrightarrow> x \<le> dbl_max \<Longrightarrow> ovf x = Fin x"
  using dbl_max_pos by (auto simp: ovf_def)

lemma ovf_exp: "exp x \<le> dbl_max \<Longrightarrow> ovf (exp x) = Fin (exp x)"
  by (rule ovf_nonneg) simp_all

lemma ovf_exp_nonpos: "x \<le> 0 \<Longrightarrow> ovf (exp x) = Fin (exp x)"
proof (rule ovf_exp)
  assume "x \<le> 0"
  then have "exp x \<le> 1" by simp
  also have "(1::real) \<le> 2 ^ 1000" by simp
  finally show "exp x \<le> dbl_max" using dbl_max_ge by linarith
qed

lemma exp_1000_overflows: "dbl_max < exp 1000"
proof -
  have "(5 / 2 :: real) \<le> exp 1"
    using exp_lower_Taylor_quadratic[of "1::real"] by simp
  then have "(5 / 2 :: real) ^ 1000 \<le> exp 1 ^ 1000"
    by (intro power_mono) simp_all
  also have "exp (1::real) ^ 1000 = exp 1000"
    using exp_of_nat_mult[of 1000 "1::real"] by simp
  finally have a: "(5 / 2 :: real) ^ 1000 \<le> exp 1000" .
  have "(2::real) ^ 13 \<le> (5 / 2) ^ 10" by (simp add: power_divide)
  then have "((2::real) ^ 13) ^ 100 \<le> ((5 / 2) ^ 10) ^ 100"
    by (intro power_mono) simp_all
  then have b: "(2::real) ^ 1300 \<le> (5 / 2) ^ 1000"
    by (simp only: power_mult[symmetric]) simp
  have "dbl_max < 2 ^ 53 * 2 ^ 971" unfolding dbl_max_def by (intro mult_strict_right_mono) simp_all
  also have "\<dots> = (2::real) ^ 1024" by (simp only: power_add[symmetric]) simp
  also have "\<dots> \<le> (2::real) ^ 1300" by (intro power_increasing) simp_all
  finally show ?thesis using a b by linarith
qed

lemma fl_exp_1000: "fl_exp (Fin 1000) = PosInf"
  using exp_1000_overflows by (simp add: ovf_def)

lemma ovf_0 [simp]: "ovf 0 = Fin 0"
  using dbl_max_pos by (simp add: ovf_def)

lemma ovf_small: "\<bar>x\<bar> \<le> 2 ^ 1000 \<Longrightarrow> ovf x = Fin x"
  using dbl_max_ge by (intro ovf_Fin) linarith

lemma dbl_max_ge_100: "100 \<le> dbl_max"
proof -
  have "(100::real) \<le> 2 ^ 1000" by simp
  then show ?thesis using dbl_max_ge by (rule order_trans)
qed

lemma small_discounted: "x \<le> 0 \<Longrightarrow> 0 \<le> c \<Longrightarrow> c \<le> 100 \<Longrightarrow> c * exp x \<le> dbl_max"
proof -
  assume x: "x \<le> 0" and c: "0 \<le> c" "c \<le> 100"
  have "exp x \<le> 1" using x by simp
  then have "c * exp x \<le> c * 1" using c(1) by (rule mult_left_mono)
  then show ?thesis using c(2) dbl_max_ge_100 by linarith
qed

lemma ovf_exp_1000 [simp]: "ovf (exp 1000) = PosInf"
  using exp_1000_overflows by (simp add: ovf_def)

lemma exp_nonpos_le_dbl_max: "x \<le> 0 \<Longrightarrow> exp x \<le> dbl_max"
  using small_discounted[of x 1] by simp

lemma small_in_range: "\<bar>x\<bar> \<le> 100 \<Longrightarrow> in_range x"
  unfolding in_range_def using dbl_max_ge_100 by linarith



lemma cum_prod_Fin:
  "\<forall>i<length xs. \<bar>a * prod_list (take (Suc i) xs)\<bar> \<le> dbl_max \<Longrightarrow> i < length xs \<Longrightarrow>
   cum_prod (Fin a) (map Fin xs) ! i = Fin (a * prod_list (take (Suc i) xs))"
proof (induction xs arbitrary: a i)
  case Nil
  then show ?case by simp
next
  case (Cons x xs)
  have h0: "\<bar>a * x\<bar> \<le> dbl_max" using Cons.prems(1)[rule_format, of 0] by simp
  then have m: "fl_mul (Fin a) (Fin x) = Fin (a * x)" by (simp add: ovf_Fin)
  show ?case
  proof (cases i)
    case 0
    then show ?thesis using m by simp
  next
    case (Suc i')
    have "\<forall>k<length xs. \<bar>a * x * prod_list (take (Suc k) xs)\<bar> \<le> dbl_max"
    proof (intro allI impI)
      fix k assume "k < length xs"
      then show "\<bar>a * x * prod_list (take (Suc k) xs)\<bar> \<le> dbl_max"
        using Cons.prems(1)[rule_format, of "Suc k"] by (simp add: mult.assoc)
    qed
    moreover have "i' < length xs" using Cons.prems(2) Suc by simp
    ultimately have "cum_prod (Fin (a * x)) (map Fin xs) ! i' = Fin (a * x * prod_list (take (Suc i') xs))"
      by (rule Cons.IH)
    then show ?thesis using m Suc by (simp add: mult.assoc)
  qed
qed

lemma cumprod_Fin:
  assumes "\<forall>i<length xs. \<bar>prod_list (take (Suc i) xs)\<bar> \<le> dbl_max" and "i < length xs"
  shows "cumprod (map Fin xs) ! i = Fin (prod_list (take (Suc i) xs))"
proof (cases xs)
  case Nil
  then show ?thesis using assms by simp
next
  case (Cons x xs')
  show ?thesis
  proof (cases i)
    case 0
    then show ?thesis using Cons by simp
  next
    case (Suc i')
    have "\<forall>k<length xs'. \<bar>x * prod_list (take (Suc k) xs')\<bar> \<le> dbl_max"
    proof (intro allI impI)
      fix k assume "k < length xs'"
      then show "\<bar>x * prod_list (take (Suc k) xs')\<bar> \<le> dbl_max"
        using assms(1)[rule_format, of "Suc k"] Cons by simp
    qed
    moreover have "i' < length xs'" using assms(2) Suc Cons by simp
    ultimately have "cum_prod (Fin x) (map Fin xs') ! i' = Fin (x * prod_list (take (Suc i') xs'))"
      by (rule cum_prod_Fin)
    then show ?thesis using Cons Suc by simp
  qed
qed

lemma prod_list_exp_upt:
  fixes g :: "nat \<Rightarrow> real"
  shows "prod_list (map (\<lambda>k. exp (g k)) [0..<n]) = exp (\<Sum>k<n. g k)"
  by (induction n) (simp_all add: exp_add)

lemma discount_telescope:
  fixes f :: "nat \<Rightarrow> real"
  shows "(\<Sum>k<n. - r * (f (k + 1) - f k)) = - r * (f n - f 0)"
  by (induction n) (simp_all add: algebra_simps)

lemma discount_factors_Fin:
  assumes "discounts_in_range r t"
  shows "discount_factors r t (len t - 1) =
           map Fin (map (\<lambda>k. exp (- r * (elems t ! (k + 1) - elems t ! k))) [0..<len t - 1])"
proof -
  have "fl_exp (fl_mul (Fin (- r)) (ovf (elems t ! (k + 1) - elems t ! k))) =
        Fin (exp (- r * (elems t ! (k + 1) - elems t ! k)))" if "k < len t - 1" for k
  proof -
    have a: "\<bar>elems t ! (k + 1) - elems t ! k\<bar> \<le> dbl_max"
      and b: "\<bar>r * (elems t ! (k + 1) - elems t ! k)\<bar> \<le> dbl_max"
      and c: "exp (- r * (elems t ! (k + 1) - elems t ! k)) \<le> dbl_max"
      using assms that unfolding discounts_in_range_def in_range_def by blast+
    have "fl_mul (Fin (- r)) (ovf (elems t ! (k + 1) - elems t ! k)) =
          Fin (- r * (elems t ! (k + 1) - elems t ! k))"
      using a b by (simp add: ovf_Fin)
    then show ?thesis using c by (simp add: ovf_exp)
  qed
  then show ?thesis unfolding discount_factors_def by simp
qed

lemma cumprod_discount:
  assumes d: "discounts_in_range r t" and i: "i < len t - 1"
  shows "cumprod (discount_factors r t (len t - 1)) ! i =
           Fin (exp (- r * (elems t ! (i + 1) - elems t ! 0)))"
proof -
  let ?e = "\<lambda>k. exp (- r * (elems t ! (k + 1) - elems t ! k))"
  let ?xs = "map ?e [0..<len t - 1]"
  have p: "prod_list (take (Suc k) ?xs) = exp (- r * (elems t ! (k + 1) - elems t ! 0))"
    if "k < len t - 1" for k
  proof -
    have "take (Suc k) ?xs = map ?e [0..<Suc k]"
      using that by (simp only: take_map take_upt) (simp add: min_def)
    then have "prod_list (take (Suc k) ?xs) = exp (\<Sum>l<Suc k. - r * (elems t ! (l + 1) - elems t ! l))"
      by (simp only: prod_list_exp_upt)
    also have "(\<Sum>l<Suc k. - r * (elems t ! (l + 1) - elems t ! l)) =
               - r * (elems t ! (Suc k) - elems t ! 0)"
      by (rule discount_telescope[of r "\<lambda>l. elems t ! l" "Suc k"])
    finally show ?thesis by simp
  qed
  have bound: "\<forall>k<length ?xs. \<bar>prod_list (take (Suc k) ?xs)\<bar> \<le> dbl_max"
  proof (intro allI impI)
    fix k assume "k < length ?xs"
    then have k: "k < len t - 1" by simp
    have "exp (- r * (elems t ! (k + 1) - elems t ! 0)) \<le> dbl_max"
      using d k unfolding discounts_in_range_def by blast
    then show "\<bar>prod_list (take (Suc k) ?xs)\<bar> \<le> dbl_max"
      unfolding p[OF k] by simp
  qed
  have "cumprod (map Fin ?xs) ! i = Fin (prod_list (take (Suc i) ?xs))"
    by (rule cumprod_Fin[OF bound]) (use i in simp)
  then show ?thesis
    unfolding discount_factors_Fin[OF d] p[OF i] .
qed

lemma cumprod_finite:
  assumes "discounts_in_range r t"
  shows "\<forall>i<len t - 1. \<exists>c. cumprod (discount_factors r t (len t - 1)) ! i = Fin c"
  using cumprod_discount[OF assms] by blast

lemma fl_sum_zeros: "\<forall>v\<in>set vs. v = Fin 0 \<Longrightarrow> fl_sum vs = Fin 0"
proof -
  have "\<forall>v\<in>set vs. v = Fin 0 \<Longrightarrow> foldl fl_add (Fin 0) vs = Fin 0"
    by (induction vs) simp_all
  then show "\<forall>v\<in>set vs. v = Fin 0 \<Longrightarrow> fl_sum vs = Fin 0" by (simp add: fl_sum_def)
qed

section \<open>The price\<close>

lemma price_is_mean:
  assumes run: "lsmc_run t X K r payoff_func ty fit_func pred_func = Inr res"
  shows "price res = fl_mean (pathwise (ncols X) (final_cashflow res) (discount_factors r t (len t - 1)))"
  using run by (auto elim!: lsmc_run_InrD simp: finish_def Let_def)


lemma pathwise_nth:
  assumes run: "lsmc_run t X K r payoff_func ty fit_func pred_func = Inr res"
    and n: "n < ncols X"
  shows "pathwise (ncols X) (final_cashflow res) (discount_factors r t (len t - 1)) ! n =
           fl_sum (map (\<lambda>i. fl_mul (fl_of_cell (final_cashflow res ! i ! n))
                               (cumprod (discount_factors r t (len t - 1)) ! i)) [0..<len t - 1])"
proof -
  have lcf: "length (final_cashflow res) = len t - 1" by (rule final_cashflow_length[OF run])
  have "map2 (\<lambda>r c. fl_mul (fl_of_cell (r ! n)) c) (final_cashflow res)
          (cumprod (discount_factors r t (len t - 1))) =
        map (\<lambda>i. fl_mul (fl_of_cell (final_cashflow res ! i ! n))
                    (cumprod (discount_factors r t (len t - 1)) ! i)) [0..<len t - 1]"
    by (rule nth_equalityI) (use lcf in simp_all)
  then show ?thesis using n by (simp add: pathwise_def)
qed


lemma pathwise_length [simp]: "length (pathwise N cf df) = N"
  by (simp add: pathwise_def)


lemma zero_path_value:
  assumes run: "lsmc_run t X K r payoff_func ty fit_func pred_func = Inr res"
    and pay: "payoff_func X K ty = Inr payoff"
    and n: "n < ncols X"
    and z: "\<forall>j<len t. rows payoff ! j ! n = 0"
    and fin: "\<forall>i<len t - 1. \<exists>c. cumprod (discount_factors r t (len t - 1)) ! i = Fin c"
  shows "pathwise (ncols X) (final_cashflow res) (discount_factors r t (len t - 1)) ! n = Fin 0"
proof -
  have "fl_mul (fl_of_cell (final_cashflow res ! i ! n))
          (cumprod (discount_factors r t (len t - 1)) ! i) = Fin 0" if i: "i < len t - 1" for i
  proof -
    obtain c where "cumprod (discount_factors r t (len t - 1)) ! i = Fin c" using fin i by blast
    moreover have "final_cashflow res ! i ! n = Some 0" by (rule zero_path(2)[OF run pay n z i])
    ultimately show ?thesis by simp
  qed
  then show ?thesis
    unfolding pathwise_nth[OF run n] by (intro fl_sum_zeros) auto
qed

lemma hd_single: "length xs = Suc 0 \<Longrightarrow> hd xs = xs ! 0"
  by (cases xs) simp_all

lemma exceeds_case:
  "exceeds p c = (case c of Fin x \<Rightarrow> x < p | PosInf \<Rightarrow> False | NegInf \<Rightarrow> True | NaN \<Rightarrow> False)"
  by (cases c) simp_all

section \<open>Evaluating the worked examples\<close>

lemmas engine_defs =
  lsmc_run_def ndim_def len_def ncols_def rows_def row_def discount_factors_def
  init_state_def step_def continuation_def broadcast_to_def finish_def collapse_def
  cumsum_axis0_def mask_cashflow_def pathwise_def fl_mean_def fl_sum_def ovf_small
  inf_signed_def mul_cell_def upt_rec Let_def eval_nat_numeral

lemma put_payoff_paths3: "put_payoff paths3 40 ''PUT'' = Inr payoff3"
  by (simp add: put_payoff_def paths3_def payoff3_def)

lemma run3:
  "lsmc_run grid3 paths3 40 0 put_payoff ''PUT'' fit_unit (pred_const 3) = Inr (result3 0)"
  by (simp add: engine_defs grid3_def paths3_def put_payoff_def fit_unit_def pred_const_def
      result3_def)

lemma rows_payoff3: "rows payoff3 = [[0, 0, 0], [4, 0, 3], [10, 0, 6]]"
  by (simp add: rows_def row_def len_def ncols_def payoff3_def upt_rec eval_nat_numeral)


lemma discounts_grid3: "discounts_in_range (3 / 50) grid3"
proof -
  have l: "len grid3 - 1 = 2" by (simp add: len_def grid3_def)
  have "in_range (elems grid3 ! (k + 1) - elems grid3 ! k) \<and>
        in_range (3 / 50 * (elems grid3 ! (k + 1) - elems grid3 ! k)) \<and>
        exp (- (3 / 50) * (elems grid3 ! (k + 1) - elems grid3 ! k)) \<le> dbl_max \<and>
        exp (- (3 / 50) * (elems grid3 ! (k + 1) - elems grid3 ! 0)) \<le> dbl_max" if "k < 2" for k
  proof -
    from that consider "k = 0" | "k = 1" by linarith
    then show ?thesis
      by cases (simp_all add: grid3_def small_in_range exp_nonpos_le_dbl_max)
  qed
  then show ?thesis unfolding discounts_in_range_def l by blast
qed

lemma discounts_grid3_zero: "discounts_in_range 0 grid3"
proof -
  have "in_range (elems grid3 ! (k + 1) - elems grid3 ! k)" if "k < len grid3 - 1" for k
  proof -
    from that have "k < 2" by (simp add: len_def grid3_def)
    then consider "k = 0" | "k = 1" by linarith
    then show ?thesis by cases (simp_all add: grid3_def small_in_range)
  qed
  then show ?thesis
    unfolding discounts_in_range_def using dbl_max_ge_100 by (simp add: in_range_def)
qed


lemma run3_single:
  "lsmc_run grid3 paths3 40 0 put_payoff ''PUT'' fit_unit (pred_single 3) = Inr (result3 0)"
  by (simp add: engine_defs grid3_def paths3_def put_payoff_def fit_unit_def pred_single_def
      result3_def)

section \<open>The scenario with a terminal date only\<close>




section \<open>At most one stopping time\<close>

text \<open>
  C2. For every input on which the engine completes, each column (path) of the final
  stopping-rule matrix, the one produced by the cumulative-sum collapse, has at most one
  true entry: the number of true entries of the column is 0 or 1.
\<close>

theorem at_most_one_stopping_time:
  assumes run: "lsmc_run t X K r payoff_func ty fit_func pred_func = Inr res"
    and n: "n < ncols X"
  shows "length (filter id (column n (final_stopping_rule res))) \<le> 1"
proof (rule at_most_one_true, intro allI impI)
  fix i k
  assume i: "i < length (column n (final_stopping_rule res))"
    and k: "k < length (column n (final_stopping_rule res))"
    and ti: "column n (final_stopping_rule res) ! i" and tk: "column n (final_stopping_rule res) ! k"
  have l: "length (final_stopping_rule res) = len t - 1"
  proof -
    from run obtain payoff where pay: "payoff_func X K ty = Inr payoff"
      by (auto elim!: lsmc_run_InrD)
    note f = lsmc_run_final[OF run pay]
    show ?thesis using f(1,4) by (simp add: shaped_def)
  qed
  have i': "i < len t - 1" and k': "k < len t - 1" using i k l by (simp_all add: column_def)
  have a: "stopping_rule (tentative res) ! i ! n \<and> (\<forall>m<i. \<not> stopping_rule (tentative res) ! m ! n)"
    using final_rule_nth(3)[OF run i' n] ti i' l by (simp add: column_def)
  have b: "stopping_rule (tentative res) ! k ! n \<and> (\<forall>m<k. \<not> stopping_rule (tentative res) ! m ! n)"
    using final_rule_nth(3)[OF run k' n] tk k' l by (simp add: column_def)
  show "i = k" using a b by (meson linorder_neqE_nat)
qed

theorem at_most_one_stopping_time_witness:
  "lsmc_run grid3 paths3 40 0 put_payoff ''PUT'' fit_unit (pred_const 3) = Inr (result3 0) \<and>
   length (filter id (column 0 (final_stopping_rule (result3 0)))) \<le> 1 \<and>
   column 0 (final_stopping_rule (result3 0)) = [True, False]"
proof -
  have n: "0 < ncols paths3" by (simp add: ncols_def paths3_def)
  have "column 0 (final_stopping_rule (result3 0)) = [True, False]"
    by (simp add: result3_def column_def)
  then show ?thesis using run3 at_most_one_stopping_time [OF run3 n] by simp
qed

section \<open>The collapse is the first-true scan\<close>

text \<open>
  C3. For every boolean matrix with \<open>N\<close> columns, taking the cumulative sum twice along
  the time axis and keeping the entries equal to 1 gives the same matrix as the explicit
  scan: in each column only the first true entry stays, and a column without a true
  entry stays false.
\<close>

theorem collapse_is_first_true_scan:
  assumes "\<forall>r\<in>set a. length r = N"
  shows "collapse N a = keep_first_true N a"
proof (rule nth_equalityI)
  show "length (collapse N a) = length (keep_first_true N a)"
    by (simp add: keep_first_true_def)
next
  fix i assume "i < length (collapse N a)"
  then have i: "i < length a" by simp
  show "collapse N a ! i = keep_first_true N a ! i"
  proof (rule nth_equalityI)
    show "length (collapse N a ! i) = length (keep_first_true N a ! i)"
      using collapse_nth(1)[OF assms i] i by (simp add: keep_first_true_def)
  next
    fix n assume "n < length (collapse N a ! i)"
    then have n: "n < N" using collapse_nth(1)[OF assms i] by simp
    have "first_true (column n a) = Some i \<longleftrightarrow> a ! i ! n \<and> (\<forall>k<i. \<not> a ! k ! n)"
      using i by (auto simp: first_true_Some column_def)
    then show "collapse N a ! i ! n = keep_first_true N a ! i ! n"
      using collapse_nth(2)[OF assms i n] i n by (simp add: keep_first_true_def)
  qed
qed

theorem collapse_is_first_true_scan_witness:
  "map length [[False, True], [True, True], [True, False]] = [2, 2, 2] \<and>
   collapse 2 [[False, True], [True, True], [True, False]] =
     keep_first_true 2 [[False, True], [True, True], [True, False]] \<and>
   keep_first_true 2 [[False, True], [True, True], [True, False]] =
     [[False, True], [True, False], [False, False]]"
proof -
  have h: "\<forall>r\<in>set [[False, True], [True, True], [True, False]]. length r = 2" by simp
  have "keep_first_true 2 [[False, True], [True, True], [True, False]] =
     [[False, True], [True, False], [False, False]]"
    by (simp add: keep_first_true_def column_def upt_rec)
  then show ?thesis using h collapse_is_first_true_scan [OF h] by simp
qed

section \<open>Exercise at maturity\<close>

text \<open>
  C4. For every input on which the engine completes and every path \<open>n\<close>: if the payoff at
  the final date \<open>M\<close> is strictly positive for the path and the final stopping-rule column
  has no true entry at any earlier row (rows \<open>0 .. M - 2\<close>), then its terminal entry
  (row \<open>M - 1\<close>) is true. Here \<open>M = len t - 1\<close>. The non-negativity of the payoff matrix
  is not needed.
\<close>

theorem terminal_exercise_if_never_earlier:
  assumes run: "lsmc_run t X K r payoff_func ty fit_func pred_func = Inr res"
    and pay: "payoff_func X K ty = Inr payoff"
    and n: "n < ncols X"
    and itm: "rows payoff ! (len t - 1) ! n > 0"
    and never: "\<forall>i<len t - 2. \<not> final_stopping_rule res ! i ! n"
  shows "final_stopping_rule res ! (len t - 2) ! n"
proof -
  note f = lsmc_run_final[OF run pay]
  let ?M = "len t - 1"
  let ?sr = "stopping_rule (tentative res)"
  have M: "?M - 1 < ?M" "?M - 1 = len t - 2" using f(6) by simp_all
  have pl: "length (rows payoff ! ?M) = ncols X"
    using rows_nth_length[of ?M payoff] f(6,7,8) by simp
  have last: "?sr ! (?M - 1) ! n" using f(3) pl n itm by simp
  have none: "\<not> ?sr ! k ! n" if "k < ?M - 1" for k
    using that
  proof (induction k rule: less_induct)
    case (less k)
    have k: "k < len t - 1" "k < len t - 2" using less.prems by simp_all
    have "\<not> final_stopping_rule res ! k ! n" using never k by simp
    moreover have "\<forall>m<k. \<not> ?sr ! m ! n" using less.IH less.prems by simp
    ultimately show ?case using final_rule_nth(3)[OF run k(1) n] by simp
  qed
  show ?thesis using final_rule_nth(3)[OF run M(1) n] last none M(2) by simp
qed

theorem terminal_exercise_if_never_earlier_witness:
  "lsmc_run grid3 paths3 40 0 put_payoff ''PUT'' fit_unit (pred_const 3) = Inr (result3 0) \<and>
   rows payoff3 ! 2 ! 2 = 6 \<and>
   final_stopping_rule (result3 0) ! 0 ! 2 = False \<and>
   final_stopping_rule (result3 0) ! 1 ! 2"
proof -
  have n: "2 < ncols paths3" by (simp add: ncols_def paths3_def)
  have l: "len grid3 = 3" by (simp add: len_def grid3_def)
  have p: "rows payoff3 ! 2 ! 2 = 6"
    by (simp add: rows_def row_def len_def ncols_def payoff3_def upt_rec eval_nat_numeral)
  have itm: "rows payoff3 ! (len grid3 - 1) ! 2 > 0" using p l by simp
  have f: "final_stopping_rule (result3 0) ! 0 ! 2 = False" by (simp add: result3_def)
  have never: "\<forall>i<len grid3 - 2. \<not> final_stopping_rule (result3 0) ! i ! 2"
    using f l by simp
  show ?thesis
    using run3 p f terminal_exercise_if_never_earlier [OF run3 put_payoff_paths3 n itm never] l by simp
qed

section \<open>The assertions\<close>

text \<open>
  C5, as amended. A call whose time grid is not 1-dimensional, or whose price matrix is
  not 2-dimensional, or whose price matrix has another number of rows than the time grid
  has points, fails with the assertion error before anything is computed: whatever the
  payoff function and the estimator are. A time grid with fewer than 2 points that
  passes these three checks makes the call fail as well, later and with another error.
  Whether the time grid is increasing is not checked.
\<close>

theorem failed_assertion_stops_the_call:
  "(ndim t \<noteq> 1 \<or> ndim X \<noteq> 2 \<or> len X \<noteq> len t \<longrightarrow>
      lsmc_run t X K r payoff_func ty fit_func pred_func = Inl AssertionError \<and>
      lsmc t X K r payoff_func ty fit_func pred_func = Inl AssertionError) \<and>
   (ndim t = 1 \<and> ndim X = 2 \<and> len X = len t \<and> len t < 2 \<longrightarrow>
      (\<exists>e. lsmc t X K r payoff_func ty fit_func pred_func = Inl e))"
  by (auto simp: lsmc_def lsmc_run_def Let_def split: sum.splits)

theorem failed_assertion_stops_the_call_witness:
  "ndim paths2 \<noteq> 1 \<and>
   lsmc paths2 paths2 40 0 payoff_fails ''PUT'' fit_fails pred_fails = Inl AssertionError \<and>
   len \<lparr>shape = [1], elems = [0]\<rparr> < 2 \<and>
   (\<exists>e. lsmc \<lparr>shape = [1], elems = [0]\<rparr> \<lparr>shape = [1, 1], elems = [40]\<rparr> 40 0 put_payoff ''PUT''
          fit_unit (pred_const 3) = Inl e)"
proof -
  have a: "ndim paths2 \<noteq> 1" by (simp add: ndim_def paths2_def)
  have b: "ndim \<lparr>shape = [1], elems = [0]\<rparr> = 1 \<and> ndim \<lparr>shape = [1, 1], elems = [40]\<rparr> = 2 \<and>
     len \<lparr>shape = [1, 1], elems = [40]\<rparr> = len \<lparr>shape = [1], elems = [0]\<rparr> \<and>
     len \<lparr>shape = [1], elems = [0]\<rparr> < 2"
    by (simp add: ndim_def len_def)
  have c: "lsmc paths2 paths2 40 0 payoff_fails ''PUT'' fit_fails pred_fails = Inl AssertionError"
    using failed_assertion_stops_the_call [where t = paths2 and X = paths2 and K = 40 and r = 0
      and payoff_func = payoff_fails and ty = "''PUT''" and fit_func = fit_fails
      and pred_func = pred_fails] a
    by blast
  have d: "\<exists>e. lsmc \<lparr>shape = [1], elems = [0]\<rparr> \<lparr>shape = [1, 1], elems = [40]\<rparr> 40 0 put_payoff ''PUT''
          fit_unit (pred_const 3) = Inl e"
    using failed_assertion_stops_the_call [where t = "\<lparr>shape = [1], elems = [0]\<rparr>"
      and X = "\<lparr>shape = [1, 1], elems = [40]\<rparr>" and K = 40 and r = 0
      and payoff_func = put_payoff and ty = "''PUT''" and fit_func = fit_unit
      and pred_func = "pred_const 3"] b
    by blast
  show ?thesis using a b c d by simp
qed

theorem failed_assertion_stops_the_call_counterexample:
  "lsmc \<lparr>shape = [2], elems = [1, 0]\<rparr> \<lparr>shape = [2, 1], elems = [40, 30]\<rparr> 40 0 put_payoff ''PUT''
     fit_unit (pred_const 3) = Inr (Fin 10) \<and>
   lsmc \<lparr>shape = [1], elems = [0]\<rparr> \<lparr>shape = [1, 1], elems = [40]\<rparr> 40 0 put_payoff ''PUT''
     fit_unit (pred_const 3) = Inl IndexError"
  by (simp add: lsmc_def engine_defs put_payoff_def)

section \<open>What the call returns\<close>




section \<open>The exercise decision\<close>

text \<open>
  C7. At every interior date \<open>j\<close> (from \<open>M - 1\<close> down to 1) the engine reaches a state
  \<open>s\<close> in which \<open>fit_func\<close>, called on the prices of the in-the-money paths of that date
  and their discounted cashflows of row \<open>j\<close>, and then \<open>pred_func\<close> give the predicted
  continuation values \<open>EV_cont\<close>: one per in-the-money path, or a single one for all of
  them. The tentative stopping decision recorded in row \<open>j - 1\<close> is, for each of these
  paths, true if and only if the immediate payoff is strictly greater than the predicted
  continuation value (never when the prediction is NaN or \<open>+inf\<close>, always when it is
  \<open>-inf\<close>). A tie is recorded as false.
\<close>

theorem exercise_iff_payoff_exceeds_continuation:
  assumes run: "lsmc_run t X K r payoff_func ty fit_func pred_func = Inr res"
    and pay: "payoff_func X K ty = Inr payoff"
    and j: "1 \<le> j" "j \<le> len t - 2"
  shows "\<exists>s fit EV_cont.
     backward fit_func pred_func (rows X) (rows payoff) (discount_factors r t (len t - 1)) j
       (len t - 2) (init_state (len t - 1) (ncols X) (rows payoff)) = Inr s \<and>
     fit_func (masked (map (\<lambda>p. p > 0) (rows payoff ! j)) (rows X ! j))
       (map (\<lambda>c. fl_mul (fl_of_cell c) (discount_factors r t (len t - 1) ! j))
          (masked (map (\<lambda>p. p > 0) (rows payoff ! j)) (cashflow s ! j))) = Inr fit \<and>
     pred_func (masked (map (\<lambda>p. p > 0) (rows payoff ! j)) (rows X ! j)) fit = Inr EV_cont \<and>
     (length EV_cont = length (masked (map (\<lambda>p. p > 0) (rows payoff ! j)) (rows payoff ! j)) \<or>
      length EV_cont = 1) \<and>
     length (masked (map (\<lambda>p. p > 0) (rows payoff ! j)) (stopping_rule (tentative res) ! (j - 1)))
       = length (masked (map (\<lambda>p. p > 0) (rows payoff ! j)) (rows payoff ! j)) \<and>
     (\<forall>k<length (masked (map (\<lambda>p. p > 0) (rows payoff ! j)) (rows payoff ! j)).
        masked (map (\<lambda>p. p > 0) (rows payoff ! j)) (stopping_rule (tentative res) ! (j - 1)) ! k
          \<longleftrightarrow>
        (case EV_cont !
                (if length EV_cont =
                      length (masked (map (\<lambda>p. p > 0) (rows payoff ! j)) (rows payoff ! j))
                 then k else 0) of
           Fin c \<Rightarrow> c < masked (map (\<lambda>p. p > 0) (rows payoff ! j)) (rows payoff ! j) ! k
         | PosInf \<Rightarrow> False
         | NegInf \<Rightarrow> True
         | NaN \<Rightarrow> False))"
proof -
  let ?M = "len t - 1" and ?N = "ncols X"
  let ?df = "discount_factors r t ?M"
  let ?P = "rows payoff"
  let ?itm = "map (\<lambda>p. p > 0) (?P ! j)"
  let ?ex = "masked ?itm (?P ! j)"
  from run pay obtain sF where
    lp: "len t \<le> len payoff" "ncols payoff = ?N" and lx: "len X = len t" and lt: "2 \<le> len t"
    and bw: "backward fit_func pred_func (rows X) ?P ?df 0 (?M - 1) (init_state ?M ?N ?P) = Inr sF"
    and res: "res = finish ?N ?df sF"
    by (auto elim!: lsmc_run_InrD)
  have tent: "tentative res = sF" using res by (simp add: finish_def Let_def)
  have M2: "?M - 1 = len t - 2" by simp
  have pl: "length (?P ! k) = ?N" if "k \<le> ?M" for k
    using rows_nth_length[of k payoff] lp lt that by simp
  have M: "0 < ?M" "?M - 1 < ?M" using lt by simp_all
  have i1: "shaped ?M ?N (init_state ?M ?N ?P)" by (rule init_shaped[OF M(1) pl]) simp
  have i2: "settled ?M ?N ?P (?M - 1) (init_state ?M ?N ?P)" by (rule init_settled[OF M(1) pl]) simp
  from backward_split[OF bw, of j] obtain s1 where
    b1: "backward fit_func pred_func (rows X) ?P ?df j (?M - 1) (init_state ?M ?N ?P) = Inr s1"
    and b2: "backward fit_func pred_func (rows X) ?P ?df 0 (min j (?M - 1)) s1 = Inr sF"
    by auto
  have sh1: "shaped ?M ?N s1"
    using backward_inv[OF b1 i1 i2 M(2)] pl by simp
  obtain j' where j': "j = Suc j'" using j(1) by (cases j) auto
  have mj: "min j (?M - 1) = Suc j'" using j j' by simp
  from b2 obtain s2 where
    st: "step fit_func pred_func (rows X) ?P ?df j s1 = Inr s2"
    and b3: "backward fit_func pred_func (rows X) ?P ?df 0 j' s2 = Inr sF"
    unfolding mj using j' by (auto split: sum.splits)
  from st obtain EV_cont ev where
    c: "continuation fit_func pred_func (rows X) ?P ?df j s1 = Inr EV_cont"
    and bc: "broadcast_to (length ?ex) EV_cont = Inr ev"
    and sr: "stopping_rule s2 = (stopping_rule s1)
        [j - 1 := put_mask ?itm (stopping_rule s1 ! (j - 1)) (map2 exceeds ?ex ev)]"
    by (rule step_InrD)
  have jm: "j - 1 < ?M" "j \<le> ?M" using j lt by simp_all
  have lrow: "length (stopping_rule s1 ! (j - 1)) = ?N" "length (stopping_rule s1) = ?M"
    using sh1 jm by (simp_all add: shaped_def)
  have litm: "length ?itm = ?N" using pl[OF jm(2)] by simp
  have lev: "length ev = length ?ex" using broadcast_to_length[OF bc] .
  have lex: "length ?ex = length (filter id ?itm)" by (rule masked_length) simp
  have fr: "stopping_rule sF ! (j - 1) = stopping_rule s2 ! (j - 1)"
    using backward_frame[OF b3, of "j - 1"] j' by simp
  have "stopping_rule s2 ! (j - 1) = put_mask ?itm (stopping_rule s1 ! (j - 1)) (map2 exceeds ?ex ev)"
    using sr lrow jm by simp
  then have m: "masked ?itm (stopping_rule sF ! (j - 1)) = map2 exceeds ?ex ev"
    using fr masked_put_mask[of ?itm "stopping_rule s1 ! (j - 1)" "map2 exceeds ?ex ev"]
      litm lrow lev lex by simp
  from c obtain fit where
    f1: "fit_func (masked ?itm (rows X ! j))
           (map (\<lambda>c. fl_mul (fl_of_cell c) (?df ! j)) (masked ?itm (cashflow s1 ! j))) = Inr fit"
    and f2: "pred_func (masked ?itm (rows X ! j)) fit = Inr EV_cont"
    unfolding continuation_def Let_def by (auto split: sum.splits)
  have shape_ev: "length EV_cont = length ?ex \<or> length EV_cont = 1"
    using bc by (auto simp: broadcast_to_def split: if_splits)
  have evk: "ev ! k = EV_cont ! (if length EV_cont = length ?ex then k else 0)"
    if "k < length ?ex" for k
    using bc that by (auto simp: broadcast_to_def hd_single split: if_splits)
  have dec: "masked ?itm (stopping_rule sF ! (j - 1)) ! k \<longleftrightarrow>
      (case EV_cont ! (if length EV_cont = length ?ex then k else 0) of
         Fin c \<Rightarrow> c < ?ex ! k | PosInf \<Rightarrow> False | NegInf \<Rightarrow> True | NaN \<Rightarrow> False)"
    if k: "k < length ?ex" for k
  proof -
    have "masked ?itm (stopping_rule sF ! (j - 1)) ! k = exceeds (?ex ! k) (ev ! k)"
      unfolding m using k lev by simp
    then show ?thesis unfolding evk[OF k] by (simp add: exceeds_case)
  qed
  have "length (masked ?itm (stopping_rule sF ! (j - 1))) = length ?ex"
    unfolding m using lev by simp
  then show ?thesis using b1 f1 f2 shape_ev dec tent M2 by auto
qed

theorem exercise_iff_payoff_exceeds_continuation_witness:
  "lsmc_run grid3 paths3 40 0 put_payoff ''PUT'' fit_unit (pred_const 3) = Inr (result3 0) \<and>
   lsmc_run grid3 paths3 40 0 put_payoff ''PUT'' fit_unit (pred_single 3) = Inr (result3 0) \<and>
   pred_const 3 [36, 37] () = Inr [Fin 3, Fin 3] \<and>
   pred_single 3 [36, 37] () = Inr [Fin 3] \<and>
   masked (map (\<lambda>p. p > 0) (rows payoff3 ! 1)) (rows payoff3 ! 1) = [4, 3] \<and>
   masked (map (\<lambda>p. p > 0) (rows payoff3 ! 1)) (stopping_rule (tentative (result3 0)) ! 0)
     = [(3::real) < 4, (3::real) < 3]"
proof -
  let ?itm = "map (\<lambda>p. p > 0) (rows payoff3 ! 1)"
  let ?m = "masked ?itm (stopping_rule (tentative (result3 0)) ! 0)"
  have l: "len grid3 = 3" by (simp add: len_def grid3_def)
  have j: "(1::nat) \<le> 1" "1 \<le> len grid3 - 2" using l by simp_all
  have p: "rows payoff3 ! 1 = [4, 0, 3]" "rows paths3 ! 1 = [36, 44, 37]"
    by (simp_all add: rows_def row_def len_def ncols_def payoff3_def paths3_def upt_rec eval_nat_numeral)
  have ex: "masked ?itm (rows payoff3 ! 1) = [4, 3]" using p by simp
  have xs: "masked ?itm (rows paths3 ! 1) = [36, 37]" using p by simp
  have a: "?m = [(3::real) < 4, (3::real) < 3]"
  proof -
    from exercise_iff_payoff_exceeds_continuation [OF run3 put_payoff_paths3 j]
    obtain s fit EV_cont where
      f2: "pred_const 3 (masked ?itm (rows paths3 ! 1)) fit = Inr EV_cont"
      and le: "length (masked ?itm (stopping_rule (tentative (result3 0)) ! (1 - 1))) =
               length (masked ?itm (rows payoff3 ! 1))"
      and dec: "\<forall>k<length (masked ?itm (rows payoff3 ! 1)).
        masked ?itm (stopping_rule (tentative (result3 0)) ! (1 - 1)) ! k \<longleftrightarrow>
        (case EV_cont ! (if length EV_cont = length (masked ?itm (rows payoff3 ! 1)) then k else 0) of
           Fin c \<Rightarrow> c < masked ?itm (rows payoff3 ! 1) ! k
         | PosInf \<Rightarrow> False | NegInf \<Rightarrow> True | NaN \<Rightarrow> False)"
      by blast
    have ev: "EV_cont = [Fin 3, Fin 3]" using f2 xs by (simp add: pred_const_def)
    have d0: "?m ! 0 \<longleftrightarrow> (3::real) < 4" using dec[rule_format, of 0] ev ex by simp
    have d1: "?m ! 1 \<longleftrightarrow> (3::real) < 3" using dec[rule_format, of 1] ev ex by simp
    have len2: "length ?m = 2" using le ex by simp
    show ?thesis
      by (rule nth_equalityI) (use len2 d0 d1 in \<open>auto simp: less_Suc_eq numeral_2_eq_2\<close>)
  qed
  have b: "?m = [(3::real) < 4, (3::real) < 3]"
  proof -
    from exercise_iff_payoff_exceeds_continuation [OF run3_single put_payoff_paths3 j]
    obtain s fit EV_cont where
      f2: "pred_single 3 (masked ?itm (rows paths3 ! 1)) fit = Inr EV_cont"
      and le: "length (masked ?itm (stopping_rule (tentative (result3 0)) ! (1 - 1))) =
               length (masked ?itm (rows payoff3 ! 1))"
      and dec: "\<forall>k<length (masked ?itm (rows payoff3 ! 1)).
        masked ?itm (stopping_rule (tentative (result3 0)) ! (1 - 1)) ! k \<longleftrightarrow>
        (case EV_cont ! (if length EV_cont = length (masked ?itm (rows payoff3 ! 1)) then k else 0) of
           Fin c \<Rightarrow> c < masked ?itm (rows payoff3 ! 1) ! k
         | PosInf \<Rightarrow> False | NegInf \<Rightarrow> True | NaN \<Rightarrow> False)"
      by blast
    have ev: "EV_cont = [Fin 3]" using f2 by (simp add: pred_single_def)
    have d0: "?m ! 0 \<longleftrightarrow> (3::real) < 4" using dec[rule_format, of 0] ev ex by simp
    have d1: "?m ! 1 \<longleftrightarrow> (3::real) < 3" using dec[rule_format, of 1] ev ex by simp
    have len2: "length ?m = 2" using le ex by simp
    show ?thesis
      by (rule nth_equalityI) (use len2 d0 d1 in \<open>auto simp: less_Suc_eq numeral_2_eq_2\<close>)
  qed
  have c: "pred_const 3 [36, 37] () = Inr [Fin 3, Fin 3]" "pred_single 3 [36, 37] () = Inr [Fin 3]"
    by (simp_all add: pred_const_def pred_single_def)
  show ?thesis using run3 run3_single ex a b c by simp
qed

section \<open>Paths that are never in the money\<close>

text \<open>
  C8, as amended. On every input on which the engine completes, a path whose payoff is 0
  at all dates has an all-false stopping-rule column and an all-zero cashflow column,
  and, when every cumulative discount factor is finite, its discounted cashflow is
  exactly 0. When there is at least one path, all payoffs are 0, the estimator accepts
  the empty in-the-money subset and every cumulative discount factor is finite, the
  engine completes, the stopping rule is entirely false and the returned price is
  exactly 0. Without a path, or with an infinite discount factor, the price is NaN.
\<close>

theorem zero_payoff_paths:
  assumes pay: "payoff_func X K ty = Inr payoff"
  shows "(\<forall>res n. lsmc_run t X K r payoff_func ty fit_func pred_func = Inr res \<longrightarrow> n < ncols X \<longrightarrow>
            (\<forall>j<len t. rows payoff ! j ! n = 0) \<longrightarrow>
            (\<forall>i<len t - 1. \<not> final_stopping_rule res ! i ! n \<and> final_cashflow res ! i ! n = Some 0) \<and>
            ((\<forall>i<len t - 1. \<exists>c. cumprod (discount_factors r t (len t - 1)) ! i = Fin c) \<longrightarrow>
             pathwise (ncols X) (final_cashflow res) (discount_factors r t (len t - 1)) ! n = Fin 0)) \<and>
         (ndim t = 1 \<and> ndim X = 2 \<and> len X = len t \<and> 2 \<le> len t \<and> shape payoff = shape X \<and>
          0 < ncols X \<and> fit_func [] [] = Inr m \<and> pred_func [] m = Inr ev \<and> length ev \<le> 1 \<and>
          (\<forall>j<len t. \<forall>n<ncols X. rows payoff ! j ! n = 0) \<and>
          (\<forall>i<len t - 1. \<exists>c. cumprod (discount_factors r t (len t - 1)) ! i = Fin c) \<longrightarrow>
            lsmc t X K r payoff_func ty fit_func pred_func = Inr (Fin 0) \<and>
            (\<exists>res. lsmc_run t X K r payoff_func ty fit_func pred_func = Inr res \<and>
                   (\<forall>i<len t - 1. \<forall>n<ncols X. \<not> final_stopping_rule res ! i ! n)))"
proof -
  have A: "(\<forall>i<len t - 1. \<not> final_stopping_rule res ! i ! n \<and> final_cashflow res ! i ! n = Some 0) \<and>
            ((\<forall>i<len t - 1. \<exists>c. cumprod (discount_factors r t (len t - 1)) ! i = Fin c) \<longrightarrow>
             pathwise (ncols X) (final_cashflow res) (discount_factors r t (len t - 1)) ! n = Fin 0)"
    if run: "lsmc_run t X K r payoff_func ty fit_func pred_func = Inr res"
      and n: "n < ncols X" and z: "\<forall>j<len t. rows payoff ! j ! n = 0" for res n
    using zero_path[OF run pay n z] zero_path_value[OF run pay n z] by blast
  have B: "lsmc t X K r payoff_func ty fit_func pred_func = Inr (Fin 0) \<and>
            (\<exists>res. lsmc_run t X K r payoff_func ty fit_func pred_func = Inr res \<and>
                   (\<forall>i<len t - 1. \<forall>n<ncols X. \<not> final_stopping_rule res ! i ! n))"
    if h: "ndim t = 1 \<and> ndim X = 2 \<and> len X = len t \<and> 2 \<le> len t \<and> shape payoff = shape X \<and>
          0 < ncols X \<and> fit_func [] [] = Inr m \<and> pred_func [] m = Inr ev \<and> length ev \<le> 1 \<and>
          (\<forall>j<len t. \<forall>n<ncols X. rows payoff ! j ! n = 0) \<and>
          (\<forall>i<len t - 1. \<exists>c. cumprod (discount_factors r t (len t - 1)) ! i = Fin c)"
  proof -
    have shp: "ndim payoff = 2" "ncols payoff = ncols X" "len t \<le> len payoff"
      using h same_shape[of payoff X] by (simp_all add: ndim_def)
    from h obtain res where run: "lsmc_run t X K r payoff_func ty fit_func pred_func = Inr res"
      using lsmc_run_all_otm[of t X payoff_func K ty payoff fit_func m pred_func ev r] pay shp
      by blast
    have fin: "\<forall>i<len t - 1. \<exists>c. cumprod (discount_factors r t (len t - 1)) ! i = Fin c"
      using h by blast
    have none: "\<not> final_stopping_rule res ! i ! n" if "i < len t - 1" "n < ncols X" for i n
    proof -
      have z: "\<forall>j<len t. rows payoff ! j ! n = 0" using h that(2) by simp
      show ?thesis by (rule zero_path(1)[OF run pay that(2) z that(1)])
    qed
    have pw: "pathwise (ncols X) (final_cashflow res) (discount_factors r t (len t - 1)) ! n = Fin 0"
      if "n < ncols X" for n
    proof -
      have z: "\<forall>j<len t. rows payoff ! j ! n = 0" using h that by simp
      show ?thesis by (rule zero_path_value[OF run pay that z fin])
    qed
    have "fl_sum (pathwise (ncols X) (final_cashflow res) (discount_factors r t (len t - 1))) = Fin 0"
      by (rule fl_sum_zeros) (use pw in \<open>auto simp: in_set_conv_nth\<close>)
    moreover have "pathwise (ncols X) (final_cashflow res) (discount_factors r t (len t - 1)) \<noteq> []"
      using h by (simp add: pathwise_def)
    ultimately have "price res = Fin 0"
      unfolding price_is_mean[OF run] by (simp add: fl_mean_def)
    then have "lsmc t X K r payoff_func ty fit_func pred_func = Inr (Fin 0)"
      using run by (simp add: lsmc_def)
    then show ?thesis using run none by blast
  qed
  show ?thesis using A B by blast
qed

theorem zero_payoff_paths_witness:
  "put_payoff paths3 40 ''PUT'' = Inr payoff3 \<and>
   map (\<lambda>j. rows payoff3 ! j ! 1) [0, 1, 2] = [0, 0, 0] \<and>
   final_cashflow (result3 0) ! 0 ! 1 = Some 0 \<and>
   pathwise (ncols paths3) (final_cashflow (result3 0)) (discount_factors 0 grid3 (len grid3 - 1)) ! 1
     = Fin 0 \<and>
   elems (projr (put_payoff paths_otm 40 ''PUT'')) = [0, 0, 0, 0, 0, 0] \<and>
   discounts_in_range (3 / 50) grid3 \<and>
   lsmc grid3 paths_otm 40 (3 / 50) put_payoff ''PUT'' fit_unit (pred_const 3) = Inr (Fin 0)"
proof -
  have l: "len grid3 = 3" "ncols paths3 = 3" by (simp_all add: len_def ncols_def grid3_def paths3_def)
  have z: "\<forall>j<len grid3. rows payoff3 ! j ! 1 = 0"
    unfolding l rows_payoff3 by (auto simp: less_Suc_eq numeral_3_eq_3)
  have n: "1 < ncols paths3" using l by simp
  have A: "(\<forall>i<len grid3 - 1. \<not> final_stopping_rule (result3 0) ! i ! 1 \<and>
               final_cashflow (result3 0) ! i ! 1 = Some 0) \<and>
      pathwise (ncols paths3) (final_cashflow (result3 0))
        (discount_factors 0 grid3 (len grid3 - 1)) ! 1 = Fin 0"
    using zero_payoff_paths [where payoff_func = put_payoff and X = paths3 and K = 40
      and ty = "''PUT''" and payoff = payoff3 and t = grid3 and r = 0 and fit_func = fit_unit
      and pred_func = "pred_const 3" and m = "()" and ev = "[]", OF put_payoff_paths3]
      run3 n z cumprod_finite[OF discounts_grid3_zero]
    by blast
  have a1: "final_cashflow (result3 0) ! 0 ! 1 = Some 0" using A l by simp
  have a2: "pathwise (ncols paths3) (final_cashflow (result3 0))
      (discount_factors 0 grid3 (len grid3 - 1)) ! 1 = Fin 0" using A by simp
  let ?P = "\<lparr>shape = [3, 2], elems = [0, 0, 0, 0, 0, 0]\<rparr>"
  have po: "put_payoff paths_otm 40 ''PUT'' = Inr ?P"
    by (simp add: put_payoff_def paths_otm_def)
  have ro: "rows ?P = [[0, 0], [0, 0], [0, 0]]"
    by (simp add: rows_def row_def len_def ncols_def upt_rec eval_nat_numeral)
  have lo: "ncols paths_otm = 2" "len paths_otm = 3" "ndim paths_otm = 2" "ndim grid3 = 1"
    "shape ?P = shape paths_otm"
    by (simp_all add: len_def ncols_def ndim_def grid3_def paths_otm_def)
  have zo: "\<forall>j<len grid3. \<forall>n<ncols paths_otm. rows ?P ! j ! n = 0"
    unfolding l lo ro by (auto simp: less_Suc_eq numeral_3_eq_3 numeral_2_eq_2)
  have h: "ndim grid3 = 1 \<and> ndim paths_otm = 2 \<and> len paths_otm = len grid3 \<and> 2 \<le> len grid3 \<and>
      shape ?P = shape paths_otm \<and> 0 < ncols paths_otm \<and> fit_unit [] [] = Inr () \<and>
      pred_const 3 [] () = Inr [] \<and> length ([] :: fl list) \<le> 1 \<and>
      (\<forall>j<len grid3. \<forall>n<ncols paths_otm. rows ?P ! j ! n = 0) \<and>
      (\<forall>i<len grid3 - 1. \<exists>c. cumprod (discount_factors (3 / 50) grid3 (len grid3 - 1)) ! i = Fin c)"
    using zo lo l cumprod_finite[OF discounts_grid3] by (simp add: fit_unit_def pred_const_def)
  have b: "lsmc grid3 paths_otm 40 (3 / 50) put_payoff ''PUT'' fit_unit (pred_const 3) = Inr (Fin 0)"
    using zero_payoff_paths [where payoff_func = put_payoff and X = paths_otm and K = 40
      and ty = "''PUT''" and payoff = ?P and t = grid3 and r = "3 / 50" and fit_func = fit_unit
      and pred_func = "pred_const 3" and m = "()" and ev = "[]", OF po] h
    by blast
  show ?thesis using put_payoff_paths3 rows_payoff3 a1 a2 po b discounts_grid3 by simp
qed

theorem zero_payoff_paths_counterexample:
  "ndim grid2 = 1 \<and> ndim no_paths = 2 \<and> len no_paths = len grid2 \<and> ncols no_paths = 0 \<and>
   lsmc grid2 no_paths 40 0 put_payoff ''PUT'' fit_unit (pred_const 3) = Inr NaN \<and>
   ncols paths2_otm = 2 \<and>
   put_payoff paths2_otm 40 ''PUT'' = Inr \<lparr>shape = [2, 2], elems = [0, 0, 0, 0]\<rparr> \<and>
   cumprod (discount_factors (- 1000) grid2 1) = [PosInf] \<and>
   lsmc grid2 paths2_otm 40 (- 1000) put_payoff ''PUT'' fit_unit (pred_const 3) = Inr NaN"
  by (simp add: lsmc_def engine_defs grid2_def no_paths_def paths2_otm_def put_payoff_def)

section \<open>No NaN is left in the cashflow matrix\<close>

text \<open>
  C10. The cashflow matrix starts as NaN (every row but the terminal one is still NaN
  when the loop begins), yet for every input on which the engine completes (so the time
  grid has at least two points; payoffs are finite reals in this model) every entry
  has been overwritten before the collapse, and the final cashflow matrix has \<open>M\<close> rows
  of \<open>N\<close> finite entries: the payoff of the exercise date where the collapsed stopping
  rule is true, and 0 elsewhere.
\<close>

theorem cashflow_never_nan:
  assumes run: "lsmc_run t X K r payoff_func ty fit_func pred_func = Inr res"
    and pay: "payoff_func X K ty = Inr payoff"
    and i: "i < len t - 1" and n: "n < ncols X"
  shows "(i < len t - 2 \<longrightarrow>
            cashflow (init_state (len t - 1) (ncols X) (rows payoff)) ! i ! n = None) \<and>
         length (final_cashflow res) = len t - 1 \<and>
         length (final_cashflow res ! i) = ncols X \<and>
         cashflow (tentative res) ! i ! n \<noteq> None \<and>
         final_cashflow res ! i ! n =
           Some (if final_stopping_rule res ! i ! n then rows payoff ! (i + 1) ! n else 0)"
proof -
  have "cashflow (init_state (len t - 1) (ncols X) (rows payoff)) ! i ! n = None"
    if "i < len t - 2"
    using that i n by (simp add: init_state_def)
  then show ?thesis
    using final_cashflow_nth[OF run pay i n] by simp
qed

theorem cashflow_never_nan_witness:
  "lsmc_run grid3 paths3 40 0 put_payoff ''PUT'' fit_unit (pred_const 3) = Inr (result3 0) \<and>
   final_cashflow (result3 0) ! 1 ! 2 = Some 6 \<and>
   final_cashflow (result3 0) ! 1 ! 0 = Some 0 \<and>
   cashflow (tentative (result3 0)) ! 1 ! 0 = Some 10"
proof -
  have n: "2 < ncols paths3" "0 < ncols paths3" by (simp_all add: ncols_def paths3_def)
  have i: "1 < len grid3 - 1" by (simp add: len_def grid3_def)
  have p: "rows payoff3 ! (1 + 1) ! 2 = 6"
    by (simp add: rows_def row_def len_def ncols_def payoff3_def upt_rec eval_nat_numeral)
  have s: "final_stopping_rule (result3 0) ! 1 ! 2" "\<not> final_stopping_rule (result3 0) ! 1 ! 0"
    by (simp_all add: result3_def)
  have "final_cashflow (result3 0) ! 1 ! 2 = Some 6"
    using cashflow_never_nan [OF run3 put_payoff_paths3 i n(1)] p s by simp
  moreover have "final_cashflow (result3 0) ! 1 ! 0 = Some 0"
    using cashflow_never_nan [OF run3 put_payoff_paths3 i n(2)] s by simp
  moreover have "cashflow (tentative (result3 0)) ! 1 ! 0 = Some 10" by (simp add: result3_def)
  ultimately show ?thesis using run3 by simp
qed

end
